theory Spec2Isabelle
  imports Main
begin

section \<open>Data model of MutationObserver.js\<close>

text \<open>
  Every JavaScript object that the code compares with \<open>===\<close> is represented by a
  reference, a natural number handed out by the allocation counter \<open>fresh\<close> of the
  state: observers, registrations, mutation records and the arrays that hold the
  record queues.
\<close>

type_synonym ref = nat

text \<open>
  A DOM node carries its \<open>parentNode\<close>; the root has none. The tree above a node is
  finite, so the ancestor chain is part of the node's value and the loop
  \<open>for (node = target; node; node = node.parentNode)\<close> is structural recursion.
\<close>

datatype node = Node (nodeId: nat) (parentNode: "node option")

text \<open>
  \<open>MutationObserverInit\<close>. A flag that is absent in the JavaScript object is falsy,
  hence \<open>False\<close>; \<open>attributeFilter\<close> is either absent or an array of strings.
\<close>

record options =
  childList :: bool
  attributes :: bool
  characterData :: bool
  subtree :: bool
  attributeOldValue :: bool
  characterDataOldValue :: bool
  attributeFilter :: "string list option"

text \<open>
  A \<open>Registration\<close> object (lines 152-156): \<open>reg_ident\<close> is the identity of the
  object itself, which is what \<open>addListeners\<close> hands to the node as the listener;
  \<open>observer\<close> is a reference to the owning \<open>JsMutationObserver\<close>.
\<close>

record registration =
  reg_ident :: ref
  observer :: ref
  target :: node
  options :: options

text \<open>
  A \<open>JsMutationObserver\<close> object (lines 49-53); the fields \<open>callback_\<close>,
  \<open>nodes_\<close> and \<open>records_\<close> of the source are \<open>callback_of\<close>, \<open>nodes_of\<close> and
  \<open>records_of\<close> here. \<open>records_of\<close> is a reference to an array in the array store,
  because \<open>takeRecords\<close> hands that very array to the caller while \<open>enqueue\<close>
  writes into whichever array the field names at the time.
\<close>

record js_mutation_observer =
  callback_of :: nat
  nodes_of :: "node list"
  records_of :: ref

text \<open>
  A mutation record. \<open>ident\<close> is the identity of the object and \<open>proto\<close> is what
  \<open>Object.getPrototypeOf\<close> returns for it: the shared \<open>mutationRecordPrototype\<close>
  (lines 133-143) for a plain record, the plain record for the one created by
  \<open>Object.create(record)\<close>. The fields that a record inherits along that chain are
  written out in the value, since no record is written to after \<open>handleEvent\<close> has
  built it. The prototype's remaining fields (\<open>addedNodes\<close>, \<open>removedNodes\<close>,
  \<open>previousSibling\<close>, \<open>nextSibling\<close>) stay \<open>null\<close> throughout and are left out.
\<close>

datatype prototype = MutationRecordPrototype | Obj ref

record mutation_record =
  ident :: ref
  proto :: prototype
  rec_type :: "string option"
  rec_target :: "node option"
  attributeName :: "string option"
  attributeNamespace :: "string option"
  oldValue :: "string option"

text \<open>
  The \<open>MutationEvent\<close> of the platform, with the fields that \<open>handleEvent\<close> reads;
  \<open>namespaceURI\<close> stands for \<open>e.relatedNode.namespaceURI\<close>.
\<close>

datatype attr_change = MODIFICATION | ADDITION | REMOVAL

record mutation_event =
  e_type :: string
  e_target :: node
  attrName :: string
  namespaceURI :: "string option"
  attrChange :: attr_change
  prevValue :: "string option"

datatype error = SyntaxError | TypeError

text \<open>
  The state of the module and of the platform around it.

  Modelled from the spec: \<open>SideTable\<close> is not part of the source file; by section 4.1
  of the specification it is an association from node identity to per-node data
  with \<open>get\<close> and \<open>set\<close>, and \<open>get\<close> of a node without an entry is absent. It is the
  map \<open>registrationsTable\<close>.

  \<open>listeners\<close> is the platform's event listener list of each node: triples of event
  type, listener object and capture flag.
\<close>

record state =
  registrationsTable :: "node \<rightharpoonup> registration list"
  observers :: "ref \<Rightarrow> js_mutation_observer"
  arrays :: "ref \<Rightarrow> mutation_record list"
  listeners :: "node \<Rightarrow> (string \<times> ref \<times> bool) list"
  fresh :: ref

section \<open>The platform's listener lists\<close>

text \<open>
  \<open>addEventListener\<close> appends the triple unless the list already holds it;
  \<open>removeEventListener\<close> removes the triple if it is there.
\<close>

definition addEventListener :: "node \<Rightarrow> string \<Rightarrow> ref \<Rightarrow> bool \<Rightarrow> state \<Rightarrow> state" where
  "addEventListener n ty l capture s =
     (let ls = listeners s n in
      if (ty, l, capture) \<in> set ls then s
      else s\<lparr>listeners := (listeners s)(n := ls @ [(ty, l, capture)])\<rparr>)"

definition removeEventListener :: "node \<Rightarrow> string \<Rightarrow> ref \<Rightarrow> bool \<Rightarrow> state \<Rightarrow> state" where
  "removeEventListener n ty l capture s =
     s\<lparr>listeners := (listeners s)(n := remove1 (ty, l, capture) (listeners s n))\<rparr>"

section \<open>Registration\<close>

definition Registration :: "ref \<Rightarrow> ref \<Rightarrow> node \<Rightarrow> options \<Rightarrow> registration" where
  "Registration i obs tgt opts =
     \<lparr>reg_ident = i, observer = obs, target = tgt, options = opts\<rparr>"

text \<open>
  \<open>Registration.prototype.enqueue\<close> (lines 159-179). \<open>records[length] = record\<close>
  on an array of that length extends it by one element.
\<close>

definition enqueue :: "registration \<Rightarrow> mutation_record \<Rightarrow> state \<Rightarrow> state" where
  "enqueue this record s =
     (let a = records_of (observers s (observer this));
          records = arrays s a;
          len = length records
      in if len > 0 \<and>
            (ident record = ident (records ! (len - 1)) \<or>
             Obj (ident record) = proto (records ! (len - 1)))
         then s
         else if len > 0 \<and> proto record = Obj (ident (records ! (len - 1)))
         then s\<lparr>arrays := (arrays s)(a := records[len - 1 := record])\<rparr>
         else s\<lparr>arrays := (arrays s)(a := records @ [record])\<rparr>)"

text \<open>\<open>addListeners\<close> (lines 181-186): the listener is \<open>this\<close>, the registration.\<close>

definition addListeners :: "registration \<Rightarrow> state \<Rightarrow> state" where
  "addListeners this s =
     (let s1 = (if attributes (options this)
                then addEventListener (target this) ''DOMAttrModified'' (reg_ident this) True s
                else s)
      in if characterData (options this)
         then addEventListener (target this) ''DOMCharacterDataModified'' (reg_ident this) True s1
         else s1)"

text \<open>\<open>removeListeners\<close> (lines 188-195): the listener is \<open>this.observer\<close>.\<close>

definition removeListeners :: "registration \<Rightarrow> state \<Rightarrow> state" where
  "removeListeners this s =
     (let s1 = (if attributes (options this)
                then removeEventListener (target this) ''DOMAttrModified'' (observer this) True s
                else s)
      in if characterData (options this)
         then removeEventListener (target this) ''DOMCharacterDataModified'' (observer this) True s1
         else s1)"

section \<open>The ancestor walk\<close>

text \<open>
  The inner loop of \<open>forEachAncestorAndObserverEnqueueRecord\<close> (lines 28-39) over the
  registrations of one node; \<open>enqueue\<close> does not touch the registration lists, so
  the loop runs over the list it read.
\<close>

fun enqueue_registrations ::
  "node \<Rightarrow> node \<Rightarrow> (options \<Rightarrow> mutation_record option) \<Rightarrow> registration list \<Rightarrow> state \<Rightarrow> state"
where
  "enqueue_registrations n tgt callback [] s = s"
| "enqueue_registrations n tgt callback (registration # rest) s =
     (if n \<noteq> tgt \<and> \<not> subtree (options registration)
      then enqueue_registrations n tgt callback rest s
      else (case callback (options registration) of
              None \<Rightarrow> enqueue_registrations n tgt callback rest s
            | Some record \<Rightarrow>
                enqueue_registrations n tgt callback rest (enqueue registration record s)))"

text \<open>The outer loop (lines 24-41), from a node up to the root.\<close>

fun ancestor_walk ::
  "node \<Rightarrow> (options \<Rightarrow> mutation_record option) \<Rightarrow> node \<Rightarrow> state \<Rightarrow> state"
where
  "ancestor_walk tgt callback (Node i p) s =
     (let s' = (case registrationsTable s (Node i p) of
                  None \<Rightarrow> s
                | Some registrations \<Rightarrow>
                    enqueue_registrations (Node i p) tgt callback registrations s)
      in case p of
           None \<Rightarrow> s'
         | Some parent \<Rightarrow> ancestor_walk tgt callback parent s')"

definition forEachAncestorAndObserverEnqueueRecord ::
  "node \<Rightarrow> (options \<Rightarrow> mutation_record option) \<Rightarrow> state \<Rightarrow> state"
where
  "forEachAncestorAndObserverEnqueueRecord tgt callback s = ancestor_walk tgt callback tgt s"

section \<open>handleEvent\<close>

text \<open>
  The two records that the \<open>DOMAttrModified\<close> case builds (lines 212-221); \<open>i\<close> is the
  identity given to the new object.
\<close>

definition attributes_record :: "ref \<Rightarrow> mutation_event \<Rightarrow> mutation_record" where
  "attributes_record i e =
     \<lparr>ident = i, proto = MutationRecordPrototype, rec_type = Some ''attributes'',
      rec_target = Some (e_target e), attributeName = Some (attrName e),
      attributeNamespace = namespaceURI e, oldValue = None\<rparr>"

definition attributes_recordWithOldValue ::
  "ref \<Rightarrow> mutation_record \<Rightarrow> mutation_event \<Rightarrow> mutation_record"
where
  "attributes_recordWithOldValue i record e =
     record\<lparr>ident := i, proto := Obj (ident record),
            oldValue := (if attrChange e = ADDITION then None else prevValue e)\<rparr>"

text \<open>
  The callback of the \<open>DOMAttrModified\<close> case (lines 223-240). \<open>indexOf\<close> of a
  \<open>null\<close> namespace in an array of strings is \<open>-1\<close>.
\<close>

definition indexOf_absent :: "string list \<Rightarrow> string option \<Rightarrow> bool" where
  "indexOf_absent xs x = (case x of None \<Rightarrow> True | Some y \<Rightarrow> y \<notin> set xs)"

definition attributes_callback ::
  "string \<Rightarrow> string option \<Rightarrow> mutation_record \<Rightarrow> mutation_record \<Rightarrow> options \<Rightarrow>
   mutation_record option"
where
  "attributes_callback name namespace record recordWithOldValue opts =
     (if \<not> attributes opts then None
      else if (case attributeFilter opts of
                 None \<Rightarrow> False
               | Some f \<Rightarrow> length f \<noteq> 0 \<and> indexOf_absent f (Some name) \<and>
                           indexOf_absent f namespace)
      then None
      else if attributeOldValue opts then Some recordWithOldValue
      else Some record)"

text \<open>The records and the callback of the \<open>DOMCharacterDataModified\<close> case (lines 246-268).\<close>

definition characterData_record :: "ref \<Rightarrow> mutation_event \<Rightarrow> mutation_record" where
  "characterData_record i e =
     \<lparr>ident = i, proto = MutationRecordPrototype, rec_type = Some ''characterData'',
      rec_target = Some (e_target e), attributeName = None,
      attributeNamespace = None, oldValue = None\<rparr>"

definition characterData_recordWithOldValue ::
  "ref \<Rightarrow> mutation_record \<Rightarrow> mutation_event \<Rightarrow> mutation_record"
where
  "characterData_recordWithOldValue i record e =
     record\<lparr>ident := i, proto := Obj (ident record), oldValue := prevValue e\<rparr>"

definition characterData_callback ::
  "mutation_record \<Rightarrow> mutation_record \<Rightarrow> options \<Rightarrow> mutation_record option"
where
  "characterData_callback record recordWithOldValue opts =
     (if \<not> characterData opts then None
      else if characterDataOldValue opts then Some recordWithOldValue
      else Some record)"

text \<open>
  \<open>Registration.prototype.handleEvent\<close> (lines 197-272). It does not read \<open>this\<close>.
  \<open>e.stopImmediatePropagation()\<close> acts on the event only. A \<open>switch\<close> without a
  matching case does nothing.
\<close>

definition handleEvent :: "mutation_event \<Rightarrow> state \<Rightarrow> state" where
  "handleEvent e s =
     (if e_type e = ''DOMAttrModified'' then
        (let record = attributes_record (fresh s) e;
             recordWithOldValue = attributes_recordWithOldValue (Suc (fresh s)) record e
         in forEachAncestorAndObserverEnqueueRecord (e_target e)
              (attributes_callback (attrName e) (namespaceURI e) record recordWithOldValue)
              (s\<lparr>fresh := Suc (Suc (fresh s))\<rparr>))
      else if e_type e = ''DOMCharacterDataModified'' then
        (let record = characterData_record (fresh s) e;
             recordWithOldValue = characterData_recordWithOldValue (Suc (fresh s)) record e
         in forEachAncestorAndObserverEnqueueRecord (e_target e)
              (characterData_callback record recordWithOldValue)
              (s\<lparr>fresh := Suc (Suc (fresh s))\<rparr>))
      else s)"

section \<open>JsMutationObserver\<close>

text \<open>The constructor (lines 49-53): a new observer with an empty array of its own.\<close>

definition JsMutationObserver :: "nat \<Rightarrow> state \<Rightarrow> ref \<times> state" where
  "JsMutationObserver callback s =
     (let this = fresh s; a = Suc (fresh s)
      in (this,
          s\<lparr>observers := (observers s)(this := \<lparr>callback_of = callback, nodes_of = [], records_of = a\<rparr>),
            arrays := (arrays s)(a := []),
            fresh := Suc a\<rparr>))"

text \<open>The check of \<open>observe\<close> (lines 58-68), steps 1.1 to 1.4.\<close>

definition options_rejected :: "options \<Rightarrow> bool" where
  "options_rejected opts =
     ((\<not> childList opts \<and> \<not> attributes opts \<and> \<not> characterData opts) \<or>
      (attributeOldValue opts \<and> \<not> attributes opts) \<or>
      ((case attributeFilter opts of None \<Rightarrow> False | Some f \<Rightarrow> length f \<noteq> 0) \<and>
         \<not> attributes opts) \<or>
      (characterDataOldValue opts \<and> \<not> characterData opts))"

text \<open>
  The loops of \<open>observe\<close> (lines 82-89) and \<open>disconnect\<close> (lines 108-117) stop at the
  first index \<open>i\<close> with \<open>registrations[i].observer === this\<close>.
\<close>

fun registration_index :: "ref \<Rightarrow> registration list \<Rightarrow> nat option" where
  "registration_index this [] = None"
| "registration_index this (r # rs) =
     (if observer r = this then Some 0
      else map_option Suc (registration_index this rs))"

text \<open>
  \<open>observe\<close> (lines 56-103). The result pairs the exception thrown, if any, with the
  state the call leaves behind.
\<close>

definition observe :: "ref \<Rightarrow> node \<Rightarrow> options \<Rightarrow> state \<Rightarrow> error option \<times> state" where
  "observe this tgt opts s =
     (if options_rejected opts then (Some SyntaxError, s)
      else
        (let registrations = (case registrationsTable s tgt of None \<Rightarrow> [] | Some rs \<Rightarrow> rs)
         in case registration_index this registrations of
              Some i \<Rightarrow>
                (let s1 = removeListeners (registrations ! i) s;
                     registration = (registrations ! i)\<lparr>options := opts\<rparr>;
                     s2 = s1\<lparr>registrationsTable :=
                              (registrationsTable s1)(tgt \<mapsto> registrations[i := registration])\<rparr>
                 in (None, addListeners registration s2))
            | None \<Rightarrow>
                (let registration = Registration (fresh s) this tgt opts;
                     ob = observers s this;
                     s2 = s\<lparr>registrationsTable :=
                              (registrationsTable s)(tgt \<mapsto> registrations @ [registration]),
                            observers := (observers s)(this := ob\<lparr>nodes_of := nodes_of ob @ [tgt]\<rparr>),
                            fresh := Suc (fresh s)\<rparr>
                 in (None, addListeners registration s2))))"

text \<open>
  The body of the \<open>forEach\<close> in \<open>disconnect\<close> (lines 107-117) for one node.
  \<open>registrations.length\<close> of a node without an entry in the table throws.
  \<open>splice(i, 1)\<close> removes the element at index \<open>i\<close>.
\<close>

definition disconnect_node :: "ref \<Rightarrow> node \<Rightarrow> state \<Rightarrow> error option \<times> state" where
  "disconnect_node this n s =
     (case registrationsTable s n of
        None \<Rightarrow> (Some TypeError, s)
      | Some registrations \<Rightarrow>
          (case registration_index this registrations of
             None \<Rightarrow> (None, s)
           | Some i \<Rightarrow>
               (let s1 = removeListeners (registrations ! i) s
                in (None,
                    s1\<lparr>registrationsTable :=
                         (registrationsTable s1)
                           (n \<mapsto> take i registrations @ drop (Suc i) registrations)\<rparr>))))"

fun disconnect_nodes :: "ref \<Rightarrow> node list \<Rightarrow> state \<Rightarrow> error option \<times> state" where
  "disconnect_nodes this [] s = (None, s)"
| "disconnect_nodes this (n # ns) s =
     (case disconnect_node this n s of
        (Some err, s') \<Rightarrow> (Some err, s')
      | (None, s') \<Rightarrow> disconnect_nodes this ns s')"

text \<open>
  \<open>disconnect\<close> (lines 105-120). \<open>this.records_ = []\<close> makes the field name a new,
  empty array. An exception inside the \<open>forEach\<close> leaves the function before that.
\<close>

definition disconnect :: "ref \<Rightarrow> state \<Rightarrow> error option \<times> state" where
  "disconnect this s =
     (case disconnect_nodes this (nodes_of (observers s this)) s of
        (Some err, s') \<Rightarrow> (Some err, s')
      | (None, s') \<Rightarrow>
          (None,
           s'\<lparr>observers := (observers s')(this := (observers s' this)\<lparr>records_of := fresh s'\<rparr>),
              arrays := (arrays s')(fresh s' := []),
              fresh := Suc (fresh s')\<rparr>))"

text \<open>
  \<open>takeRecords\<close> (lines 122-126) returns the array that \<open>records_\<close> named and makes
  the field name a new, empty array.
\<close>

definition takeRecords :: "ref \<Rightarrow> state \<Rightarrow> ref \<times> state" where
  "takeRecords this s =
     (let copyOfRecords = records_of (observers s this)
      in (copyOfRecords,
          s\<lparr>observers := (observers s)(this := (observers s this)\<lparr>records_of := fresh s\<rparr>),
            arrays := (arrays s)(fresh s := []),
            fresh := Suc (fresh s)\<rparr>))"

section \<open>Notions of the specification\<close>

text \<open>
  The words of the specification for the coalescing step: two records are identical
  when they are the same object; \<open>b\<close> is the base record of \<open>x\<close> when \<open>x\<close> was
  created from \<open>b\<close> as its refinement with the previous value, that is, when \<open>b\<close>
  is the prototype of \<open>x\<close>.
\<close>

definition identical :: "mutation_record \<Rightarrow> mutation_record \<Rightarrow> bool" where
  "identical r l = (ident r = ident l)"

definition base_of :: "mutation_record \<Rightarrow> mutation_record \<Rightarrow> bool" where
  "base_of b x = (proto x = Obj (ident b))"

text \<open>The four steps of section 4.3 of the specification, on the queue as a list.\<close>

definition coalesce :: "mutation_record list \<Rightarrow> mutation_record \<Rightarrow> mutation_record list" where
  "coalesce q r =
     (if q = [] then q @ [r]
      else if identical r (last q) \<or> base_of r (last q) then q
      else if base_of (last q) r then butlast q @ [r]
      else q @ [r])"

text \<open>The array that is the queue of a registration's observer.\<close>

definition queue_ref :: "registration \<Rightarrow> state \<Rightarrow> ref" where
  "queue_ref this s = records_of (observers s (observer this))"

section \<open>Example states\<close>

text \<open>
  The state after the module has been loaded: no registrations, no listeners, no
  observer created yet. Reference \<open>0\<close> is taken by \<open>mutationRecordPrototype\<close>,
  and a place of \<open>observers\<close> at which no observer has been created names it as
  \<open>records_of\<close>.
\<close>

definition init_state :: state where
  "init_state =
     \<lparr>registrationsTable = Map.empty,
      observers = (\<lambda>_. \<lparr>callback_of = 0, nodes_of = [], records_of = 0\<rparr>),
      arrays = (\<lambda>_. []),
      listeners = (\<lambda>_. []),
      fresh = 1\<rparr>"

definition plain_record :: "ref \<Rightarrow> mutation_record" where
  "plain_record i =
     \<lparr>ident = i, proto = MutationRecordPrototype, rec_type = Some ''attributes'',
      rec_target = Some (Node 0 None), attributeName = Some ''id'',
      attributeNamespace = None, oldValue = None\<rparr>"

definition extended_record :: "ref \<Rightarrow> ref \<Rightarrow> mutation_record" where
  "extended_record i b = (plain_record b)\<lparr>ident := i, proto := Obj b, oldValue := Some ''x''\<rparr>"

definition queue_state :: "mutation_record list \<Rightarrow> state" where
  "queue_state q = init_state\<lparr>arrays := (\<lambda>_. q)\<rparr>"

definition watch_attributes :: options where
  "watch_attributes =
     \<lparr>childList = False, attributes = True, characterData = False, subtree = False,
      attributeOldValue = False, characterDataOldValue = False, attributeFilter = None\<rparr>"

definition some_registration :: registration where
  "some_registration = Registration 3 1 (Node 0 None) watch_attributes"

section \<open>The dispatch of the specification\<close>

text \<open>The nodes that the walk visits, in order: the target, its parent, up to the root.\<close>

fun ancestors_or_self :: "node \<Rightarrow> node list" where
  "ancestors_or_self (Node i p) =
     Node i p # (case p of None \<Rightarrow> [] | Some parent \<Rightarrow> ancestors_or_self parent)"

text \<open>
  Section 4.2: a registration found at a visited node is skipped unless the node is
  the target or the registration asked for the subtree.
\<close>

definition skipped :: "node \<Rightarrow> node \<Rightarrow> registration \<Rightarrow> bool" where
  "skipped n tgt reg = (\<not> (n = tgt \<or> subtree (options reg)))"

text \<open>
  The registrations of one visited node that are not skipped and for which the record
  builder returns a record, each with that record, in the order of the node's list.
\<close>

definition deliveries_at ::
  "node \<Rightarrow> (options \<Rightarrow> mutation_record option) \<Rightarrow> state \<Rightarrow> node \<Rightarrow>
   (registration \<times> mutation_record) list"
where
  "deliveries_at tgt recordBuilder s n =
     (case registrationsTable s n of
        None \<Rightarrow> []
      | Some regs \<Rightarrow>
          concat (map (\<lambda>reg. if skipped n tgt reg then []
                              else (case recordBuilder (options reg) of
                                      None \<Rightarrow> []
                                    | Some r \<Rightarrow> [(reg, r)]))
                      regs))"

definition deliveries ::
  "node \<Rightarrow> (options \<Rightarrow> mutation_record option) \<Rightarrow> state \<Rightarrow>
   (registration \<times> mutation_record) list"
where
  "deliveries tgt recordBuilder s =
     concat (map (deliveries_at tgt recordBuilder s) (ancestors_or_self tgt))"

text \<open>A sequence of calls of \<open>enqueue\<close>, first to last.\<close>

definition enqueue_all :: "(registration \<times> mutation_record) list \<Rightarrow> state \<Rightarrow> state" where
  "enqueue_all ds s = foldl (\<lambda>s' (reg, r). enqueue reg r s') s ds"

section \<open>A tree of two nodes and one observer\<close>

definition node_A :: node where
  "node_A = Node 0 None"

definition node_B :: node where
  "node_B = Node 1 (Some node_A)"

definition characterData_event :: "node \<Rightarrow> mutation_event" where
  "characterData_event n =
     \<lparr>e_type = ''DOMCharacterDataModified'', e_target = n, attrName = [],
      namespaceURI = None, attrChange = MODIFICATION, prevValue = Some ''old''\<rparr>"

definition watch_characterData :: "bool \<Rightarrow> options" where
  "watch_characterData sub =
     \<lparr>childList = False, attributes = False, characterData = True, subtree = sub,
      attributeOldValue = False, characterDataOldValue = False, attributeFilter = None\<rparr>"

text \<open>
  The first observer created after loading has reference \<open>1\<close> and its queue is
  array \<open>2\<close>; here it observes \<open>node_A\<close> with the given options, which makes
  registration \<open>3\<close>.
\<close>

definition observing_A :: "options \<Rightarrow> state" where
  "observing_A opts = snd (observe 1 node_A opts (snd (JsMutationObserver 0 init_state)))"

section \<open>Reportable changes\<close>

text \<open>
  Section 4.2: with a non-empty \<open>attributeFilter\<close> the change is reported only if
  the attribute's local name or its namespace URI is in the filter.
\<close>

definition in_filter :: "string list \<Rightarrow> string \<Rightarrow> string option \<Rightarrow> bool" where
  "in_filter f name namespace =
     (name \<in> set f \<or> (case namespace of None \<Rightarrow> False | Some ns \<Rightarrow> ns \<in> set f))"

definition filter_passes :: "string \<Rightarrow> string option \<Rightarrow> options \<Rightarrow> bool" where
  "filter_passes name namespace opts =
     (case attributeFilter opts of
        None \<Rightarrow> True
      | Some f \<Rightarrow> f = [] \<or> in_filter f name namespace)"

text \<open>A change is reportable to a registration: its kind is watched and the filter passes.\<close>

definition reportable_attributes :: "string \<Rightarrow> string option \<Rightarrow> options \<Rightarrow> bool" where
  "reportable_attributes name namespace opts =
     (attributes opts \<and> filter_passes name namespace opts)"

definition reportable_characterData :: "options \<Rightarrow> bool" where
  "reportable_characterData opts = characterData opts"

section \<open>Attribute events on \<open>node_A\<close>\<close>

definition attributes_event :: "string \<Rightarrow> attr_change \<Rightarrow> mutation_event" where
  "attributes_event name change =
     \<lparr>e_type = ''DOMAttrModified'', e_target = node_A, attrName = name,
      namespaceURI = None, attrChange = change, prevValue = Some ''old''\<rparr>"

definition watch_id :: options where
  "watch_id = watch_attributes\<lparr>attributeFilter := Some [''id'']\<rparr>"

definition watch_old_attributes :: options where
  "watch_old_attributes = watch_attributes\<lparr>attributeOldValue := True\<rparr>"

section \<open>The invariants of the options\<close>

text \<open>
  Section 3 of the specification: at least one of the three kinds is watched;
  \<open>attributeOldValue\<close> requires \<open>attributes\<close>; a non-empty \<open>attributeFilter\<close>
  requires \<open>attributes\<close>; \<open>characterDataOldValue\<close> requires \<open>characterData\<close>.
\<close>

definition nonempty_filter :: "options \<Rightarrow> bool" where
  "nonempty_filter opts = (attributeFilter opts \<noteq> None \<and> attributeFilter opts \<noteq> Some [])"

definition violates_invariants :: "options \<Rightarrow> bool" where
  "violates_invariants opts =
     (\<not> (attributes opts \<or> characterData opts \<or> childList opts)
      \<or> (attributeOldValue opts \<and> \<not> attributes opts)
      \<or> (nonempty_filter opts \<and> \<not> attributes opts)
      \<or> (characterDataOldValue opts \<and> \<not> characterData opts))"

definition watch_nothing :: options where
  "watch_nothing = watch_attributes\<lparr>attributes := False\<rparr>"

section \<open>One registration per observer and node\<close>

text \<open>No list of the table holds two registrations of the same observer.\<close>

definition one_registration_per_observer :: "state \<Rightarrow> bool" where
  "one_registration_per_observer s =
     (\<forall>n regs. registrationsTable s n = Some regs \<longrightarrow> distinct (map observer regs))"

text \<open>Every node of the observer's node list has a list in the table.\<close>

definition nodes_have_lists :: "ref \<Rightarrow> state \<Rightarrow> bool" where
  "nodes_have_lists this s =
     (\<forall>n \<in> set (nodes_of (observers s this)). registrationsTable s n \<noteq> None)"

text \<open>A list of registrations without those of the observer.\<close>

definition without_observer :: "ref \<Rightarrow> registration list \<Rightarrow> registration list" where
  "without_observer this regs = filter (\<lambda>r. observer r \<noteq> this) regs"

section \<open>Arrays and their owners\<close>

text \<open>
  Every queue is an array that has been allocated; the queue of an observer is the
  queue of no other observer; an array is detached when it has been allocated and
  is the queue of no observer.
\<close>

definition queues_allocated :: "state \<Rightarrow> bool" where
  "queues_allocated s = (\<forall>obs. records_of (observers s obs) < fresh s)"

definition queue_unshared :: "ref \<Rightarrow> state \<Rightarrow> bool" where
  "queue_unshared this s =
     (\<forall>obs. obs \<noteq> this \<longrightarrow> records_of (observers s obs) \<noteq> records_of (observers s this))"

definition detached :: "ref \<Rightarrow> state \<Rightarrow> bool" where
  "detached a s = (a < fresh s \<and> (\<forall>obs. records_of (observers s obs) \<noteq> a))"

text \<open>The calls that a program can make, and a sequence of them.\<close>

datatype operation =
  New nat
| Observe ref node options
| Disconnect ref
| TakeRecords ref
| HandleEvent mutation_event
| Enqueue registration mutation_record

fun perform :: "operation \<Rightarrow> state \<Rightarrow> state" where
  "perform (New cb) s = snd (JsMutationObserver cb s)"
| "perform (Observe this tgt opts) s = snd (observe this tgt opts s)"
| "perform (Disconnect this) s = snd (disconnect this s)"
| "perform (TakeRecords this) s = snd (takeRecords this s)"
| "perform (HandleEvent e) s = handleEvent e s"
| "perform (Enqueue reg r) s = enqueue reg r s"

definition run :: "operation list \<Rightarrow> state \<Rightarrow> state" where
  "run ops s = foldl (\<lambda>s' op. perform op s') s ops"

section \<open>States that the operations reach\<close>

text \<open>The options of every registration in the table have passed the check of \<open>observe\<close>.\<close>

definition registered_options_accepted :: "state \<Rightarrow> bool" where
  "registered_options_accepted s =
     (\<forall>n regs. registrationsTable s n = Some regs \<longrightarrow>
        (\<forall>reg \<in> set regs. \<not> options_rejected (options reg)))"

definition consistent :: "state \<Rightarrow> bool" where
  "consistent s =
     (one_registration_per_observer s \<and> (\<forall>this. nodes_have_lists this s) \<and>
      registered_options_accepted s)"

text \<open>
  The arrays of a state are in order: the next reference is not \<open>0\<close>, every queue
  has been allocated, and two observers have the same queue only where both are
  places of the store at which no observer has been created, whose \<open>records_of\<close>
  is \<open>0\<close> from the initial state.
\<close>

definition arrays_in_order :: "state \<Rightarrow> bool" where
  "arrays_in_order s =
     (0 < fresh s \<and> queues_allocated s \<and>
      (\<forall>this. records_of (observers s this) = 0 \<or> queue_unshared this s))"

section \<open>Programs\<close>

text \<open>
  A program calls \<open>observe\<close>, \<open>disconnect\<close> and \<open>takeRecords\<close> on observers that
  the constructor has returned to it, and \<open>enqueue\<close> runs on a registration of such
  an observer. \<open>calls\<close> runs a sequence of operations from the observers created
  so far and a state; it gives the observers created and the state reached, and
  nothing when a receiver is not an observer that has been created.
\<close>

fun receiver_created :: "ref list \<Rightarrow> operation \<Rightarrow> bool" where
  "receiver_created cs (New cb) = True"
| "receiver_created cs (Observe this tgt opts) = (this \<in> set cs)"
| "receiver_created cs (Disconnect this) = (this \<in> set cs)"
| "receiver_created cs (TakeRecords this) = (this \<in> set cs)"
| "receiver_created cs (HandleEvent e) = True"
| "receiver_created cs (Enqueue reg r) = (observer reg \<in> set cs)"

fun created_by :: "operation \<Rightarrow> state \<Rightarrow> ref list" where
  "created_by (New cb) s = [fst (JsMutationObserver cb s)]"
| "created_by (Observe this tgt opts) s = []"
| "created_by (Disconnect this) s = []"
| "created_by (TakeRecords this) s = []"
| "created_by (HandleEvent e) s = []"
| "created_by (Enqueue reg r) s = []"

fun calls :: "ref list \<Rightarrow> operation list \<Rightarrow> state \<Rightarrow> (ref list \<times> state) option" where
  "calls cs [] s = Some (cs, s)"
| "calls cs (op # ops) s =
     (if receiver_created cs op then calls (created_by op s @ cs) ops (perform op s)
      else None)"

text \<open>
  The observers that have been created are objects allocated before, each with a
  queue of its own kind (not reference \<open>0\<close>); every registration in the table is
  the registration of such an observer, and the node in whose list it stands is in
  the node list of that observer.
\<close>

definition observers_created :: "ref list \<Rightarrow> state \<Rightarrow> bool" where
  "observers_created cs s =
     (\<forall>c \<in> set cs. c < fresh s \<and> records_of (observers s c) \<noteq> 0)"

definition registered_listed :: "ref list \<Rightarrow> state \<Rightarrow> bool" where
  "registered_listed cs s =
     (\<forall>n regs. registrationsTable s n = Some regs \<longrightarrow>
        (\<forall>reg \<in> set regs. observer reg \<in> set cs \<and>
                            n \<in> set (nodes_of (observers s (observer reg)))))"

definition program_state :: "ref list \<Rightarrow> state \<Rightarrow> bool" where
  "program_state cs s =
     (arrays_in_order s \<and> consistent s \<and> observers_created cs s \<and> registered_listed cs s)"

section \<open>Coalescing of records\<close>

lemma arrays_update_same: "arrays s a = q \<Longrightarrow> s\<lparr>arrays := (arrays s)(a := q)\<rparr> = s"
  by auto

lemma enqueue_coalesce:
  "enqueue this r s =
     s\<lparr>arrays := (arrays s)(queue_ref this s := coalesce (arrays s (queue_ref this s)) r)\<rparr>"
proof (cases "arrays s (queue_ref this s)" rule: rev_cases)
  case Nil
  then show ?thesis
    by (simp add: enqueue_def coalesce_def queue_ref_def Let_def)
next
  case (snoc ys y)
  then have q: "arrays s (records_of (observers s (observer this))) = ys @ [y]"
    by (simp add: queue_ref_def)
  show ?thesis
  proof (cases "identical r y \<or> base_of r y")
    case True
    then have "coalesce (ys @ [y]) r = ys @ [y]"
      by (simp add: coalesce_def)
    moreover from True q have "enqueue this r s = s"
      by (auto simp: enqueue_def identical_def base_of_def Let_def)
    ultimately show ?thesis
      using snoc by (simp add: arrays_update_same)
  next
    case False
    with q show ?thesis
      by (auto simp: enqueue_def coalesce_def identical_def base_of_def queue_ref_def Let_def)
  qed
qed

text \<open>
  C1. \<open>enqueue\<close> changes nothing but the queue of the registration's observer, and
  the new queue is the old one coalesced with the record: a record goes into an empty
  queue; a record that is the last queued record, or the base record of the last
  queued record, is dropped; a record whose base record is the last queued record
  takes that record's place; any other record is appended. Identity decides, not
  the values of the fields: a record that differs from the last plain record in
  nothing but its identity is appended.
\<close>

theorem enqueue_coalesces:
  "enqueue this r s =
     s\<lparr>arrays := (arrays s)(queue_ref this s := coalesce (arrays s (queue_ref this s)) r)\<rparr>
   \<and> coalesce [] r = [r]
   \<and> (identical r l \<or> base_of r l \<longrightarrow> coalesce (q @ [l]) r = q @ [l])
   \<and> (\<not> identical r l \<and> \<not> base_of r l \<and> base_of l r \<longrightarrow> coalesce (q @ [l]) r = q @ [r])
   \<and> (\<not> identical r l \<and> \<not> base_of r l \<and> \<not> base_of l r \<longrightarrow>
        coalesce (q @ [l]) r = q @ [l, r])
   \<and> (i \<noteq> ident l \<and> proto l = MutationRecordPrototype \<longrightarrow>
        coalesce (q @ [l]) (l\<lparr>ident := i\<rparr>) = q @ [l, l\<lparr>ident := i\<rparr>])"
  by (simp add: enqueue_coalesce coalesce_def identical_def base_of_def)

theorem enqueue_coalesces_witness:
  "arrays (enqueue some_registration (plain_record 7) (queue_state [])) 0 = [plain_record 7]
   \<and> arrays (enqueue some_registration (plain_record 7) (queue_state [plain_record 7])) 0
       = [plain_record 7]
   \<and> arrays (enqueue some_registration (plain_record 7) (queue_state [extended_record 8 7])) 0
       = [extended_record 8 7]
   \<and> arrays (enqueue some_registration (extended_record 8 7) (queue_state [plain_record 7])) 0
       = [extended_record 8 7]
   \<and> plain_record 9 = (plain_record 7)\<lparr>ident := 9\<rparr>
   \<and> arrays (enqueue some_registration (plain_record 9) (queue_state [plain_record 7])) 0
       = [plain_record 7, plain_record 9]"
  using enqueue_coalesces [of some_registration "plain_record 7" "queue_state []"
          "plain_record 7" "[]" 9]
        enqueue_coalesces [of some_registration "plain_record 7" "queue_state [plain_record 7]"
          "plain_record 7" "[]" 9]
        enqueue_coalesces [of some_registration "plain_record 7" "queue_state [extended_record 8 7]"
          "extended_record 8 7" "[]" 9]
        enqueue_coalesces [of some_registration "extended_record 8 7" "queue_state [plain_record 7]"
          "plain_record 7" "[]" 9]
        enqueue_coalesces [of some_registration "plain_record 9" "queue_state [plain_record 7]"
          "plain_record 7" "[]" 9]
  by (simp add: queue_ref_def queue_state_def init_state_def some_registration_def
        Registration_def plain_record_def extended_record_def identical_def base_of_def)

section \<open>The walk enqueues the deliveries\<close>

lemma enqueue_all_Nil [simp]: "enqueue_all [] s = s"
  by (simp add: enqueue_all_def)

lemma enqueue_all_Cons [simp]: "enqueue_all ((reg, r) # ds) s = enqueue_all ds (enqueue reg r s)"
  by (simp add: enqueue_all_def)

lemma enqueue_all_append [simp]: "enqueue_all (ds @ es) s = enqueue_all es (enqueue_all ds s)"
  by (simp add: enqueue_all_def)

lemma enqueue_table [simp]: "registrationsTable (enqueue reg r s) = registrationsTable s"
  by (simp add: enqueue_def Let_def)

lemma enqueue_all_table [simp]: "registrationsTable (enqueue_all ds s) = registrationsTable s"
  by (induction ds arbitrary: s) auto

lemma enqueue_registrations_deliveries:
  "enqueue_registrations n tgt cb regs s =
     enqueue_all (concat (map (\<lambda>reg. if skipped n tgt reg then []
                              else (case cb (options reg) of
                                      None \<Rightarrow> []
                                    | Some r \<Rightarrow> [(reg, r)])) regs)) s"
  by (induction regs arbitrary: s) (auto simp: skipped_def split: option.splits)

lemma deliveries_at_table:
  "registrationsTable s' = registrationsTable s \<Longrightarrow>
     deliveries_at tgt cb s' n = deliveries_at tgt cb s n"
  by (simp add: deliveries_at_def)

lemma walk_step:
  "(case registrationsTable s n of None \<Rightarrow> s
    | Some registrations \<Rightarrow> enqueue_registrations n tgt cb registrations s) =
   enqueue_all (deliveries_at tgt cb s n) s"
  by (simp add: deliveries_at_def enqueue_registrations_deliveries split: option.splits)

lemma ancestor_walk_unfold:
  "ancestor_walk tgt cb (Node i p) s =
     (case p of None \<Rightarrow> enqueue_all (deliveries_at tgt cb s (Node i p)) s
      | Some parent \<Rightarrow>
          ancestor_walk tgt cb parent (enqueue_all (deliveries_at tgt cb s (Node i p)) s))"
  by (simp only: ancestor_walk.simps Let_def walk_step)

lemma ancestor_walk_deliveries:
  "ancestor_walk tgt cb n s =
     enqueue_all (concat (map (deliveries_at tgt cb s) (ancestors_or_self n))) s"
proof (induction n arbitrary: s)
  case (Node i p)
  show ?case
  proof (cases p)
    case None
    then show ?thesis
      by (simp add: ancestor_walk_unfold del: ancestor_walk.simps)
  next
    case (Some parent)
    let ?s' = "enqueue_all (deliveries_at tgt cb s (Node i p)) s"
    have tab: "deliveries_at tgt cb ?s' = deliveries_at tgt cb s"
      by (rule ext, rule deliveries_at_table) simp
    have "parent \<in> set_option p"
      by (simp add: Some)
    then have "ancestor_walk tgt cb parent ?s' =
        enqueue_all (concat (map (deliveries_at tgt cb ?s') (ancestors_or_self parent))) ?s'"
      by (rule Node.IH)
    then show ?thesis
      by (simp add: ancestor_walk_unfold Some tab [unfolded Some] del: ancestor_walk.simps)
  qed
qed

lemma walk_deliveries:
  "forEachAncestorAndObserverEnqueueRecord tgt cb s = enqueue_all (deliveries tgt cb s) s"
  by (simp add: forEachAncestorAndObserverEnqueueRecord_def deliveries_def ancestor_walk_deliveries)

lemma deliveries_member:
  "(reg, r) \<in> set (deliveries tgt cb s) \<longleftrightarrow>
     (\<exists>n \<in> set (ancestors_or_self tgt). \<exists>regs.
        registrationsTable s n = Some regs \<and> reg \<in> set regs \<and>
        (n = tgt \<or> subtree (options reg)) \<and> cb (options reg) = Some r)"
proof -
  have at: "(reg, r) \<in> set (deliveries_at tgt cb s n) \<longleftrightarrow>
              (\<exists>regs. registrationsTable s n = Some regs \<and> reg \<in> set regs \<and>
                 (n = tgt \<or> subtree (options reg)) \<and> cb (options reg) = Some r)" for n
    by (cases "registrationsTable s n")
       (auto simp: deliveries_at_def skipped_def split: option.splits if_splits)
  show ?thesis
    unfolding deliveries_def by (simp add: at)
qed

lemmas scenario_defs =
  observing_A_def JsMutationObserver_def init_state_def observe_def options_rejected_def
  Let_def Registration_def addListeners_def addEventListener_def node_A_def node_B_def
  handleEvent_def forEachAncestorAndObserverEnqueueRecord_def enqueue_def

lemma subtree_false_scenario:
  "arrays (handleEvent (characterData_event node_B) (observing_A (watch_characterData False))) 2
     = []"
  by (simp add: scenario_defs watch_characterData_def characterData_event_def)

lemma subtree_true_scenario:
  "arrays (handleEvent (characterData_event node_B) (observing_A (watch_characterData True))) 2
     = [characterData_record 4 (characterData_event node_B)]"
  by (simp add: scenario_defs watch_characterData_def characterData_event_def
        characterData_callback_def characterData_record_def)

text \<open>
  C3. The walk from the target to the root enqueues, in the order of the visit,
  exactly the deliveries: a registration found at a visited node is delivered to if
  and only if the node is the target or the registration's \<open>subtree\<close> option is
  true, and the record builder, given the registration's options, returns a record;
  that record is enqueued on the registration. With \<open>subtree = false\<close> registered
  on \<open>node_A\<close>, a change of its child \<open>node_B\<close> leaves the observer's queue
  (array \<open>2\<close>) empty; with \<open>subtree = true\<close> it holds one record.
\<close>

theorem ancestor_walk_dispatch:
  "forEachAncestorAndObserverEnqueueRecord tgt recordBuilder s
     = enqueue_all (deliveries tgt recordBuilder s) s
   \<and> ((reg, r) \<in> set (deliveries tgt recordBuilder s) \<longleftrightarrow>
        (\<exists>n \<in> set (ancestors_or_self tgt). \<exists>regs.
           registrationsTable s n = Some regs \<and> reg \<in> set regs \<and>
           (n = tgt \<or> subtree (options reg)) \<and> recordBuilder (options reg) = Some r))
   \<and> arrays (handleEvent (characterData_event node_B) (observing_A (watch_characterData False))) 2
        = []
   \<and> arrays (handleEvent (characterData_event node_B) (observing_A (watch_characterData True))) 2
        = [characterData_record 4 (characterData_event node_B)]"
  using walk_deliveries deliveries_member subtree_false_scenario subtree_true_scenario
  by blast

theorem ancestor_walk_dispatch_witness:
  "forEachAncestorAndObserverEnqueueRecord node_B
      (characterData_callback (plain_record 7) (extended_record 8 7))
      (observing_A (watch_characterData True))
     = enqueue (Registration 3 1 node_A (watch_characterData True)) (plain_record 7)
         (observing_A (watch_characterData True))
   \<and> deliveries node_B (characterData_callback (plain_record 7) (extended_record 8 7))
        (observing_A (watch_characterData False)) = []"
proof -
  have d: "deliveries node_B (characterData_callback (plain_record 7) (extended_record 8 7))
             (observing_A (watch_characterData True))
           = [(Registration 3 1 node_A (watch_characterData True), plain_record 7)]"
    by (simp add: deliveries_def deliveries_at_def skipped_def observing_A_def
        JsMutationObserver_def init_state_def observe_def options_rejected_def Let_def
        Registration_def addListeners_def addEventListener_def node_A_def node_B_def
        watch_characterData_def characterData_callback_def)
  have e: "deliveries node_B (characterData_callback (plain_record 7) (extended_record 8 7))
        (observing_A (watch_characterData False)) = []"
    by (simp add: deliveries_def deliveries_at_def skipped_def observing_A_def
        JsMutationObserver_def init_state_def observe_def options_rejected_def Let_def
        Registration_def addListeners_def addEventListener_def node_A_def node_B_def
        watch_characterData_def characterData_callback_def)
  from ancestor_walk_dispatch [of node_B
          "characterData_callback (plain_record 7) (extended_record 8 7)"
          "observing_A (watch_characterData True)"]
  have "forEachAncestorAndObserverEnqueueRecord node_B
      (characterData_callback (plain_record 7) (extended_record 8 7))
      (observing_A (watch_characterData True))
     = enqueue_all (deliveries node_B (characterData_callback (plain_record 7) (extended_record 8 7))
             (observing_A (watch_characterData True))) (observing_A (watch_characterData True))"
    by (rule conjunct1)
  with d e show ?thesis
    by simp
qed

section \<open>The record builders\<close>

lemma attributes_callback_reportable:
  "attributes_callback name namespace r rw opts =
     (if reportable_attributes name namespace opts
      then Some (if attributeOldValue opts then rw else r)
      else None)"
  by (auto simp: attributes_callback_def reportable_attributes_def filter_passes_def
        in_filter_def indexOf_absent_def split: option.splits)

lemma filter_class_scenario:
  "arrays (handleEvent (attributes_event ''class'' MODIFICATION) (observing_A watch_id)) 2 = []"
  by (simp add: scenario_defs watch_id_def watch_attributes_def attributes_event_def
        attributes_callback_def indexOf_absent_def)

lemma filter_id_scenario:
  "arrays (handleEvent (attributes_event ''id'' MODIFICATION) (observing_A watch_id)) 2
     = [attributes_record 4 (attributes_event ''id'' MODIFICATION)]"
  by (simp add: scenario_defs watch_id_def watch_attributes_def attributes_event_def
        attributes_callback_def indexOf_absent_def attributes_record_def)

lemma characterData_callback_reportable:
  "characterData_callback r rw opts =
     (if reportable_characterData opts
      then Some (if characterDataOldValue opts then rw else r)
      else None)"
  by (simp add: characterData_callback_def reportable_characterData_def)

text \<open>
  C8. For a change that is reportable to a registration (the kind is watched and, for
  attributes, the filter passes) the builder returns exactly one record for that
  registration: the one with the previous value if the registration's old-value option
  of that kind is set, the plain one otherwise. So the walk delivers a record to a
  registration if and only if the registration is found at a visited node, is not
  skipped and the change is reportable to it, and the record is that variant. The
  two records that \<open>handleEvent\<close> hands to the builder are the plain record and the
  record derived from it.
\<close>

theorem builder_returns_one_record:
  "(reportable_attributes name namespace opts \<longrightarrow>
      attributes_callback name namespace r rw opts = Some (if attributeOldValue opts then rw else r))
   \<and> (reportable_characterData opts \<longrightarrow>
      characterData_callback r rw opts = Some (if characterDataOldValue opts then rw else r))
   \<and> ((reg, x) \<in> set (deliveries tgt (attributes_callback name namespace r rw) s) \<longleftrightarrow>
        (\<exists>n \<in> set (ancestors_or_self tgt). \<exists>regs.
           registrationsTable s n = Some regs \<and> reg \<in> set regs \<and> \<not> skipped n tgt reg) \<and>
        reportable_attributes name namespace (options reg) \<and>
        x = (if attributeOldValue (options reg) then rw else r))
   \<and> ((reg, x) \<in> set (deliveries tgt (characterData_callback r rw) s) \<longleftrightarrow>
        (\<exists>n \<in> set (ancestors_or_self tgt). \<exists>regs.
           registrationsTable s n = Some regs \<and> reg \<in> set regs \<and> \<not> skipped n tgt reg) \<and>
        reportable_characterData (options reg) \<and>
        x = (if characterDataOldValue (options reg) then rw else r))
   \<and> (e_type e = ''DOMAttrModified'' \<longrightarrow>
        handleEvent e s =
          forEachAncestorAndObserverEnqueueRecord (e_target e)
            (attributes_callback (attrName e) (namespaceURI e)
               (attributes_record (fresh s) e)
               (attributes_recordWithOldValue (Suc (fresh s)) (attributes_record (fresh s) e) e))
            (s\<lparr>fresh := Suc (Suc (fresh s))\<rparr>))
   \<and> (e_type e = ''DOMCharacterDataModified'' \<longrightarrow>
        handleEvent e s =
          forEachAncestorAndObserverEnqueueRecord (e_target e)
            (characterData_callback
               (characterData_record (fresh s) e)
               (characterData_recordWithOldValue (Suc (fresh s)) (characterData_record (fresh s) e) e))
            (s\<lparr>fresh := Suc (Suc (fresh s))\<rparr>))
   \<and> base_of (attributes_record i e) (attributes_recordWithOldValue j (attributes_record i e) e)
   \<and> base_of (characterData_record i e)
        (characterData_recordWithOldValue j (characterData_record i e) e)"
proof -
  have a: "(reg, x) \<in> set (deliveries tgt (attributes_callback name namespace r rw) s) \<longleftrightarrow>
        (\<exists>n \<in> set (ancestors_or_self tgt). \<exists>regs.
           registrationsTable s n = Some regs \<and> reg \<in> set regs \<and> \<not> skipped n tgt reg) \<and>
        reportable_attributes name namespace (options reg) \<and>
        x = (if attributeOldValue (options reg) then rw else r)"
    unfolding deliveries_member attributes_callback_reportable skipped_def by auto
  have c: "(reg, x) \<in> set (deliveries tgt (characterData_callback r rw) s) \<longleftrightarrow>
        (\<exists>n \<in> set (ancestors_or_self tgt). \<exists>regs.
           registrationsTable s n = Some regs \<and> reg \<in> set regs \<and> \<not> skipped n tgt reg) \<and>
        reportable_characterData (options reg) \<and>
        x = (if characterDataOldValue (options reg) then rw else r)"
    unfolding deliveries_member characterData_callback_reportable skipped_def by auto
  have rest: "(reportable_attributes name namespace opts \<longrightarrow>
      attributes_callback name namespace r rw opts = Some (if attributeOldValue opts then rw else r))
   \<and> (reportable_characterData opts \<longrightarrow>
      characterData_callback r rw opts = Some (if characterDataOldValue opts then rw else r))
   \<and> (e_type e = ''DOMAttrModified'' \<longrightarrow>
        handleEvent e s =
          forEachAncestorAndObserverEnqueueRecord (e_target e)
            (attributes_callback (attrName e) (namespaceURI e)
               (attributes_record (fresh s) e)
               (attributes_recordWithOldValue (Suc (fresh s)) (attributes_record (fresh s) e) e))
            (s\<lparr>fresh := Suc (Suc (fresh s))\<rparr>))
   \<and> (e_type e = ''DOMCharacterDataModified'' \<longrightarrow>
        handleEvent e s =
          forEachAncestorAndObserverEnqueueRecord (e_target e)
            (characterData_callback
               (characterData_record (fresh s) e)
               (characterData_recordWithOldValue (Suc (fresh s)) (characterData_record (fresh s) e) e))
            (s\<lparr>fresh := Suc (Suc (fresh s))\<rparr>))
   \<and> base_of (attributes_record i e) (attributes_recordWithOldValue j (attributes_record i e) e)
   \<and> base_of (characterData_record i e)
        (characterData_recordWithOldValue j (characterData_record i e) e)"
    by (simp add: attributes_callback_reportable characterData_callback_reportable
        handleEvent_def Let_def base_of_def
        attributes_record_def attributes_recordWithOldValue_def
        characterData_record_def characterData_recordWithOldValue_def)
  from a c rest show ?thesis
    by blast
qed

theorem builder_returns_one_record_witness:
  "reportable_attributes ''id'' None watch_old_attributes
   \<and> attributes_callback ''id'' None (plain_record 7) (extended_record 8 7) watch_old_attributes
        = Some (extended_record 8 7)
   \<and> reportable_attributes ''id'' None watch_attributes
   \<and> attributes_callback ''id'' None (plain_record 7) (extended_record 8 7) watch_attributes
        = Some (plain_record 7)
   \<and> reportable_characterData (watch_characterData True)
   \<and> characterData_callback (plain_record 7) (extended_record 8 7) (watch_characterData True)
        = Some (plain_record 7)"
  using builder_returns_one_record [of "''id''" None watch_old_attributes "plain_record 7"
          "extended_record 8 7" some_registration "plain_record 7" node_A init_state
          "attributes_event ''id'' MODIFICATION" 0 0]
        builder_returns_one_record [of "''id''" None watch_attributes "plain_record 7"
          "extended_record 8 7" some_registration "plain_record 7" node_A init_state
          "attributes_event ''id'' MODIFICATION" 0 0]
        builder_returns_one_record [of "''id''" None "watch_characterData True" "plain_record 7"
          "extended_record 8 7" some_registration "plain_record 7" node_A init_state
          "attributes_event ''id'' MODIFICATION" 0 0]
  by (simp add: reportable_attributes_def filter_passes_def reportable_characterData_def
        watch_old_attributes_def watch_attributes_def watch_characterData_def)

lemma addition_scenario:
  "arrays (handleEvent (attributes_event ''id'' ADDITION) (observing_A watch_old_attributes)) 2
     = [(attributes_record 4 (attributes_event ''id'' ADDITION))
          \<lparr>ident := 5, proto := Obj 4, oldValue := None\<rparr>]"
  by (simp add: scenario_defs watch_old_attributes_def watch_attributes_def attributes_event_def
        attributes_callback_def attributes_record_def attributes_recordWithOldValue_def)

lemma removal_scenario:
  "arrays (handleEvent (attributes_event ''id'' REMOVAL) (observing_A watch_old_attributes)) 2
     = [(attributes_record 4 (attributes_event ''id'' REMOVAL))
          \<lparr>ident := 5, proto := Obj 4, oldValue := Some ''old''\<rparr>]"
  by (simp add: scenario_defs watch_old_attributes_def watch_attributes_def attributes_event_def
        attributes_callback_def attributes_record_def attributes_recordWithOldValue_def)

text \<open>
  C10. The record with the previous value that \<open>handleEvent\<close> builds for an attribute
  event carries \<open>null\<close> as \<open>oldValue\<close> when the change is an addition, whatever
  previous value the event reports, and the event's previous value for a modification
  or a removal.
\<close>

theorem addition_has_null_oldValue:
  "(attrChange e = ADDITION \<longrightarrow> oldValue (attributes_recordWithOldValue i r e) = None)
   \<and> (attrChange e = MODIFICATION \<or> attrChange e = REMOVAL \<longrightarrow>
        oldValue (attributes_recordWithOldValue i r e) = prevValue e)"
  by (auto simp: attributes_recordWithOldValue_def)

theorem addition_has_null_oldValue_witness:
  "attrChange (attributes_event ''id'' ADDITION) = ADDITION
   \<and> prevValue (attributes_event ''id'' ADDITION) = Some ''old''
   \<and> oldValue (attributes_recordWithOldValue 5 (plain_record 4) (attributes_event ''id'' ADDITION))
        = None
   \<and> oldValue (attributes_recordWithOldValue 5 (plain_record 4) (attributes_event ''id'' REMOVAL))
        = Some ''old''
   \<and> map oldValue (arrays (handleEvent (attributes_event ''id'' ADDITION)
                              (observing_A watch_old_attributes)) 2) = [None]
   \<and> map oldValue (arrays (handleEvent (attributes_event ''id'' REMOVAL)
                              (observing_A watch_old_attributes)) 2) = [Some ''old'']"
  using addition_has_null_oldValue [of "attributes_event ''id'' ADDITION" 5 "plain_record 4"]
        addition_has_null_oldValue [of "attributes_event ''id'' REMOVAL" 5 "plain_record 4"]
        addition_scenario removal_scenario
  by (simp add: attributes_event_def)

section \<open>Rejected options\<close>

lemma options_rejected_iff: "options_rejected opts \<longleftrightarrow> violates_invariants opts"
  by (auto simp: options_rejected_def violates_invariants_def nonempty_filter_def
        split: option.splits)

text \<open>
  C4. \<open>observe\<close> throws, and what it throws is the \<open>SyntaxError\<close>, exactly when the
  options violate the invariants; the call then leaves the state as it was, so no
  registration is made and an existing one keeps its options and its listeners.
\<close>

theorem observe_rejects_invalid_options:
  "(fst (observe this tgt opts s) = Some SyntaxError \<longleftrightarrow> violates_invariants opts)
   \<and> (fst (observe this tgt opts s) = None \<longleftrightarrow> \<not> violates_invariants opts)
   \<and> (violates_invariants opts \<longrightarrow> snd (observe this tgt opts s) = s)"
  by (auto simp: observe_def options_rejected_iff Let_def split: option.splits)

theorem observe_rejects_invalid_options_witness:
  "violates_invariants watch_nothing
   \<and> observe 1 node_A watch_nothing (observing_A watch_old_attributes)
       = (Some SyntaxError, observing_A watch_old_attributes)
   \<and> map options (the (registrationsTable (observing_A watch_old_attributes) node_A))
       = [watch_old_attributes]
   \<and> observe 1 node_B watch_nothing (observing_A watch_old_attributes)
       = (Some SyntaxError, observing_A watch_old_attributes)
   \<and> \<not> violates_invariants watch_id
   \<and> fst (observe 1 node_A watch_id (observing_A watch_old_attributes)) = None"
proof -
  have v: "violates_invariants watch_nothing"
    by (simp add: violates_invariants_def watch_nothing_def watch_attributes_def
          nonempty_filter_def)
  have w: "\<not> violates_invariants watch_id"
    by (simp add: violates_invariants_def watch_id_def watch_attributes_def)
  have r: "map options (the (registrationsTable (observing_A watch_old_attributes) node_A))
       = [watch_old_attributes]"
    by (simp add: scenario_defs watch_old_attributes_def watch_attributes_def)
  show ?thesis
    using v w r
      observe_rejects_invalid_options [of 1 node_A watch_nothing "observing_A watch_old_attributes"]
      observe_rejects_invalid_options [of 1 node_B watch_nothing "observing_A watch_old_attributes"]
      observe_rejects_invalid_options [of 1 node_A watch_id "observing_A watch_old_attributes"]
    by (simp add: prod_eq_iff)
qed

section \<open>Listeners\<close>

text \<open>
  C9. \<open>addListeners\<close> followed by \<open>removeListeners\<close> does not give back the
  listener list: \<open>addListeners\<close> attaches the registration (object \<open>3\<close>),
  \<open>removeListeners\<close> asks the node to remove the observer (object \<open>1\<close>), which
  was never attached. The listener of the registration stays on the target after
  \<open>disconnect\<close>, although the registration has left the node's list, and after a
  second \<open>observe\<close> that no longer watches attributes.
\<close>

theorem removeListeners_leaves_listener:
  "listeners init_state node_A = []
   \<and> listeners (removeListeners some_registration (addListeners some_registration init_state))
        node_A = [(''DOMAttrModified'', 3, True)]
   \<and> registrationsTable (snd (disconnect 1 (observing_A watch_attributes))) node_A = Some []
   \<and> listeners (snd (disconnect 1 (observing_A watch_attributes))) node_A
        = [(''DOMAttrModified'', 3, True)]
   \<and> listeners (snd (observe 1 node_A (watch_characterData False) (observing_A watch_attributes)))
        node_A = [(''DOMAttrModified'', 3, True), (''DOMCharacterDataModified'', 3, True)]"
  by (simp add: scenario_defs some_registration_def watch_attributes_def watch_characterData_def
        removeListeners_def removeEventListener_def disconnect_def disconnect_node_def)

section \<open>What the operations leave alone\<close>

lemma addListeners_frame [simp]:
  "registrationsTable (addListeners r s) = registrationsTable s"
  "observers (addListeners r s) = observers s"
  "arrays (addListeners r s) = arrays s"
  "fresh (addListeners r s) = fresh s"
  by (simp_all add: addListeners_def addEventListener_def Let_def)

lemma removeListeners_frame [simp]:
  "registrationsTable (removeListeners r s) = registrationsTable s"
  "observers (removeListeners r s) = observers s"
  "arrays (removeListeners r s) = arrays s"
  "fresh (removeListeners r s) = fresh s"
  by (simp_all add: removeListeners_def removeEventListener_def Let_def)

lemma disconnect_node_frame [simp]:
  "observers (snd (disconnect_node this n s)) = observers s"
  "arrays (snd (disconnect_node this n s)) = arrays s"
  "fresh (snd (disconnect_node this n s)) = fresh s"
  by (simp_all add: disconnect_node_def Let_def split: option.splits)

lemma disconnect_nodes_frame_all:
  "observers (snd (disconnect_nodes this ns s)) = observers s
   \<and> arrays (snd (disconnect_nodes this ns s)) = arrays s
   \<and> fresh (snd (disconnect_nodes this ns s)) = fresh s"
proof (induction ns arbitrary: s)
  case Nil
  show ?case by simp
next
  case (Cons n ns)
  obtain e s1 where d: "disconnect_node this n s = (e, s1)"
    by (cases "disconnect_node this n s")
  have s1: "observers s1 = observers s" "arrays s1 = arrays s" "fresh s1 = fresh s"
    using disconnect_node_frame [of this n s] by (simp_all add: d)
  show ?case
  proof (cases e)
    case None
    with d s1 Cons.IH [of s1] show ?thesis by simp
  next
    case (Some err)
    with d s1 show ?thesis by simp
  qed
qed

lemma disconnect_nodes_frame [simp]:
  "observers (snd (disconnect_nodes this ns s)) = observers s"
  "arrays (snd (disconnect_nodes this ns s)) = arrays s"
  "fresh (snd (disconnect_nodes this ns s)) = fresh s"
  by (simp_all add: disconnect_nodes_frame_all)

section \<open>The first registration of an observer in a list\<close>

lemma registration_index_None:
  "registration_index this regs = None \<longleftrightarrow> this \<notin> observer ` set regs"
  by (induction regs) auto

lemma registration_index_Some:
  "registration_index this regs = Some i \<Longrightarrow> i < length regs \<and> observer (regs ! i) = this"
  by (induction regs arbitrary: i) (auto split: if_splits)

lemma update_options_observers:
  "i < length regs \<Longrightarrow> map observer (regs[i := (regs ! i)\<lparr>options := opts\<rparr>]) = map observer regs"
  by (simp add: map_update list_update_same_conv)

lemma without_observer_None:
  "registration_index this regs = None \<Longrightarrow> without_observer this regs = regs"
  by (auto simp: registration_index_None without_observer_def filter_id_conv)

lemma without_observer_Some:
  "distinct (map observer regs) \<Longrightarrow> registration_index this regs = Some i \<Longrightarrow>
     take i regs @ drop (Suc i) regs = without_observer this regs"
proof (induction regs arbitrary: i)
  case Nil
  then show ?case by simp
next
  case (Cons r rs)
  show ?case
  proof (cases "observer r = this")
    case True
    with Cons.prems have "registration_index this rs = None"
      by (simp add: registration_index_None)
    then have "without_observer this rs = rs"
      by (rule without_observer_None)
    with True Cons.prems show ?thesis
      by (simp add: without_observer_def)
  next
    case False
    with Cons.prems obtain j where j: "registration_index this rs = Some j" "i = Suc j"
      by auto
    with Cons.prems Cons.IH [of j] False show ?thesis
      by (simp add: without_observer_def)
  qed
qed

lemma distinct_without_observer:
  "distinct (map observer regs) \<Longrightarrow> distinct (map observer (without_observer this regs))"
  by (simp add: without_observer_def distinct_map_filter)

section \<open>The effect of \<open>observe\<close> and \<open>disconnect\<close> on the table\<close>

lemma observe_existing:
  assumes "registrationsTable s tgt = Some regs" "registration_index this regs = Some i"
    "\<not> options_rejected opts"
  shows "registrationsTable (snd (observe this tgt opts s))
           = (registrationsTable s)(tgt \<mapsto> regs[i := (regs ! i)\<lparr>options := opts\<rparr>])"
    and "observers (snd (observe this tgt opts s)) = observers s"
  using assms by (simp_all add: observe_def Let_def)

lemma observe_new:
  assumes "registration_index this (case registrationsTable s tgt of None \<Rightarrow> [] | Some rs \<Rightarrow> rs)
             = None"
    "\<not> options_rejected opts"
  shows "registrationsTable (snd (observe this tgt opts s))
           = (registrationsTable s)(tgt \<mapsto>
                (case registrationsTable s tgt of None \<Rightarrow> [] | Some rs \<Rightarrow> rs)
                  @ [Registration (fresh s) this tgt opts])"
  using assms by (simp add: observe_def Let_def)

lemma observe_invariant:
  assumes "one_registration_per_observer s"
  shows "one_registration_per_observer (snd (observe this tgt opts s))"
proof (cases "options_rejected opts")
  case True
  with assms show ?thesis by (simp add: observe_def)
next
  case False
  let ?regs = "case registrationsTable s tgt of None \<Rightarrow> [] | Some rs \<Rightarrow> rs"
  have d: "distinct (map observer ?regs)"
    using assms by (auto simp: one_registration_per_observer_def split: option.splits)
  show ?thesis
  proof (cases "registration_index this ?regs")
    case None
    then have "this \<notin> observer ` set ?regs"
      by (simp add: registration_index_None)
    with d have "distinct (map observer (?regs @ [Registration (fresh s) this tgt opts]))"
      by (simp add: Registration_def)
    with assms show ?thesis
      unfolding one_registration_per_observer_def observe_new [OF None False]
      by (simp del: distinct_append map_append)
  next
    case (Some i)
    then obtain regs where regs: "registrationsTable s tgt = Some regs"
      by (cases "registrationsTable s tgt") auto
    with Some have i: "registration_index this regs = Some i"
      by simp
    then have "i < length regs"
      by (simp add: registration_index_Some)
    then have "map observer (regs[i := (regs ! i)\<lparr>options := opts\<rparr>]) = map observer regs"
      by (rule update_options_observers)
    with assms regs show ?thesis
      unfolding one_registration_per_observer_def observe_existing(1) [OF regs i False]
      by auto
  qed
qed

lemma disconnect_node_table:
  assumes "registrationsTable s n = Some regs" "distinct (map observer regs)"
  shows "disconnect_node this n s
           = (None, snd (disconnect_node this n s))"
    and "registrationsTable (snd (disconnect_node this n s))
           = (registrationsTable s)(n \<mapsto> without_observer this regs)"
proof -
  show "disconnect_node this n s = (None, snd (disconnect_node this n s))"
    using assms by (simp add: disconnect_node_def Let_def split: option.splits)
  show "registrationsTable (snd (disconnect_node this n s))
           = (registrationsTable s)(n \<mapsto> without_observer this regs)"
  proof (cases "registration_index this regs")
    case None
    then have "without_observer this regs = regs"
      by (rule without_observer_None)
    with None assms show ?thesis
      by (simp add: disconnect_node_def fun_upd_idem)
  next
    case (Some i)
    with assms have "take i regs @ drop (Suc i) regs = without_observer this regs"
      by (simp add: without_observer_Some)
    with Some assms show ?thesis
      by (simp add: disconnect_node_def Let_def)
  qed
qed

lemma disconnect_node_invariant:
  assumes "one_registration_per_observer s"
  shows "one_registration_per_observer (snd (disconnect_node this n s))"
proof (cases "registrationsTable s n")
  case None
  with assms show ?thesis by (simp add: disconnect_node_def)
next
  case (Some regs)
  with assms have d: "distinct (map observer regs)"
    by (simp add: one_registration_per_observer_def)
  then have "distinct (map observer (without_observer this regs))"
    by (rule distinct_without_observer)
  with assms show ?thesis
    unfolding one_registration_per_observer_def disconnect_node_table(2) [OF Some d]
    by auto
qed

lemma disconnect_nodes_invariant:
  "one_registration_per_observer s \<Longrightarrow>
     one_registration_per_observer (snd (disconnect_nodes this ns s))"
proof (induction ns arbitrary: s)
  case Nil
  then show ?case by simp
next
  case (Cons n ns)
  obtain e s1 where d: "disconnect_node this n s = (e, s1)"
    by (cases "disconnect_node this n s")
  have "one_registration_per_observer s1"
    using disconnect_node_invariant [OF Cons.prems, of this n] by (simp add: d)
  with d Cons.IH [of s1] show ?case
    by (cases e) simp_all
qed

lemma disconnect_table:
  "registrationsTable (snd (disconnect this s))
     = registrationsTable (snd (disconnect_nodes this (nodes_of (observers s this)) s))"
  by (cases "disconnect_nodes this (nodes_of (observers s this)) s")
     (auto simp: disconnect_def split: option.splits)

lemma handleEvent_table: "registrationsTable (handleEvent e s) = registrationsTable s"
  by (simp add: handleEvent_def walk_deliveries Let_def)

lemma repeat_scenario:
  "registrationsTable (observing_A watch_attributes) node_A
     = Some [Registration 3 1 node_A watch_attributes]
   \<and> registrationsTable (snd (observe 1 node_A watch_id (observing_A watch_attributes))) node_A
     = Some [Registration 3 1 node_A watch_id]
   \<and> nodes_of (observers (observing_A watch_attributes) 1) = [node_A]
   \<and> nodes_of (observers (snd (observe 1 node_A watch_id (observing_A watch_attributes))) 1)
     = [node_A]"
  by (simp add: scenario_defs watch_id_def watch_attributes_def removeListeners_def
        removeEventListener_def)

section \<open>disconnect\<close>

lemma without_observer_idem [simp]:
  "without_observer this (without_observer this regs) = without_observer this regs"
  by (simp add: without_observer_def)

lemma disconnect_nodes_table:
  assumes "one_registration_per_observer s"
    and "\<forall>n \<in> set ns. registrationsTable s n \<noteq> None"
  shows "fst (disconnect_nodes this ns s) = None \<and>
     registrationsTable (snd (disconnect_nodes this ns s))
       = (\<lambda>n. if n \<in> set ns then map_option (without_observer this) (registrationsTable s n)
              else registrationsTable s n)"
  using assms
proof (induction ns arbitrary: s)
  case Nil
  then show ?case by simp
next
  case (Cons n ns)
  let ?s1 = "snd (disconnect_node this n s)"
  from Cons.prems obtain regs where regs: "registrationsTable s n = Some regs"
    by auto
  with Cons.prems have d: "distinct (map observer regs)"
    by (simp add: one_registration_per_observer_def)
  have step: "disconnect_node this n s = (None, ?s1)"
    using regs d by (rule disconnect_node_table(1))
  have tab: "registrationsTable ?s1 = (registrationsTable s)(n \<mapsto> without_observer this regs)"
    using regs d by (rule disconnect_node_table(2))
  have inv: "one_registration_per_observer ?s1"
    using Cons.prems(1) by (rule disconnect_node_invariant)
  have lists: "\<forall>m \<in> set ns. registrationsTable ?s1 m \<noteq> None"
    using Cons.prems(2) by (simp add: tab)
  have unfold: "disconnect_nodes this (n # ns) s = disconnect_nodes this ns ?s1"
    by (subst disconnect_nodes.simps, subst step) simp
  from Cons.IH [OF inv lists] show ?case
    unfolding unfold by (auto simp: tab regs)
qed

lemma disconnect_result:
  assumes "fst (disconnect_nodes this (nodes_of (observers s this)) s) = None"
  shows "disconnect this s =
     (None,
      (snd (disconnect_nodes this (nodes_of (observers s this)) s))
        \<lparr>observers := (observers s)(this := (observers s this)\<lparr>records_of := fresh s\<rparr>),
         arrays := (arrays s)(fresh s := []),
         fresh := Suc (fresh s)\<rparr>)"
  using assms
  by (cases "disconnect_nodes this (nodes_of (observers s this)) s")
     (auto simp: disconnect_def dest: arg_cong [where f = snd])

section \<open>takeRecords\<close>

lemma observe_queues:
  "records_of (observers (snd (observe this tgt opts s)) obs) = records_of (observers s obs)"
  "arrays (snd (observe this tgt opts s)) = arrays s"
  "fresh s \<le> fresh (snd (observe this tgt opts s))"
  by (simp_all add: observe_def Let_def split: option.splits)

lemma detached_enqueue:
  assumes "detached a s"
  shows "detached a (enqueue reg r s) \<and> arrays (enqueue reg r s) a = arrays s a"
proof -
  from assms have "queue_ref reg s \<noteq> a"
    by (simp add: detached_def queue_ref_def)
  with assms show ?thesis
    by (simp add: enqueue_coalesce detached_def)
qed

lemma detached_enqueue_all:
  "detached a s \<Longrightarrow> detached a (enqueue_all ds s) \<and> arrays (enqueue_all ds s) a = arrays s a"
proof (induction ds arbitrary: s)
  case Nil
  then show ?case by simp
next
  case (Cons d ds)
  obtain reg r where d: "d = (reg, r)"
    by (cases d)
  from detached_enqueue [OF Cons.prems, of reg r] Cons.IH [of "enqueue reg r s"]
  show ?case by (simp add: d)
qed

lemma detached_handleEvent:
  assumes "detached a s"
  shows "detached a (handleEvent e s) \<and> arrays (handleEvent e s) a = arrays s a"
proof -
  let ?s1 = "s\<lparr>fresh := Suc (Suc (fresh s))\<rparr>"
  from assms have "detached a ?s1"
    by (simp add: detached_def)
  then have "detached a (enqueue_all ds ?s1) \<and> arrays (enqueue_all ds ?s1) a = arrays s a" for ds
    using detached_enqueue_all [of a ?s1 ds] by simp
  with assms show ?thesis
    by (simp add: handleEvent_def walk_deliveries Let_def)
qed

lemma detached_new:
  assumes "detached a s"
  shows "detached a (snd (JsMutationObserver cb s))
         \<and> arrays (snd (JsMutationObserver cb s)) a = arrays s a"
  using assms by (auto simp: detached_def JsMutationObserver_def Let_def)

lemma detached_observe:
  assumes "detached a s"
  shows "detached a (snd (observe this tgt opts s))
         \<and> arrays (snd (observe this tgt opts s)) a = arrays s a"
  using assms observe_queues(3) [of s this tgt opts]
  by (simp add: detached_def observe_queues(1,2))

lemma detached_takeRecords:
  assumes "detached a s"
  shows "detached a (snd (takeRecords this s))
         \<and> arrays (snd (takeRecords this s)) a = arrays s a"
  using assms by (auto simp: detached_def takeRecords_def Let_def)

lemma detached_disconnect:
  assumes "detached a s"
  shows "detached a (snd (disconnect this s))
         \<and> arrays (snd (disconnect this s)) a = arrays s a"
proof -
  let ?ns = "nodes_of (observers s this)"
  obtain e s1 where d: "disconnect_nodes this ?ns s = (e, s1)"
    by (cases "disconnect_nodes this ?ns s")
  have s1: "observers s1 = observers s" "arrays s1 = arrays s" "fresh s1 = fresh s"
    using disconnect_nodes_frame [of this ?ns s] by (simp_all add: d)
  show ?thesis
  proof (cases e)
    case None
    with d have "snd (disconnect this s) =
        s1\<lparr>observers := (observers s1)(this := (observers s1 this)\<lparr>records_of := fresh s1\<rparr>),
           arrays := (arrays s1)(fresh s1 := []),
           fresh := Suc (fresh s1)\<rparr>"
      by (simp add: disconnect_def)
    with assms s1 show ?thesis
      by (auto simp: detached_def)
  next
    case (Some err)
    with d have "snd (disconnect this s) = s1"
      by (simp add: disconnect_def)
    with assms s1 show ?thesis
      by (simp add: detached_def)
  qed
qed

lemma detached_perform:
  "detached a s \<Longrightarrow> detached a (perform op s) \<and> arrays (perform op s) a = arrays s a"
  by (cases op)
     (simp_all add: detached_new detached_observe detached_disconnect detached_takeRecords
        detached_handleEvent detached_enqueue)

lemma detached_run:
  "detached a s \<Longrightarrow> detached a (run ops s) \<and> arrays (run ops s) a = arrays s a"
proof (induction ops arbitrary: s)
  case Nil
  then show ?case by (simp add: run_def)
next
  case (Cons op ops)
  from detached_perform [OF Cons.prems, of op] Cons.IH [of "perform op s"]
  show ?case by (simp add: run_def)
qed

lemma takeRecords_detaches:
  assumes "queues_allocated s" "queue_unshared this s"
  shows "detached (fst (takeRecords this s)) (snd (takeRecords this s))"
proof -
  let ?a = "records_of (observers s this)"
  have alloc: "?a < fresh s"
    using assms(1) by (simp add: queues_allocated_def)
  have other: "records_of (observers s obs) \<noteq> ?a" if "obs \<noteq> this" for obs
    using assms(2) that by (simp add: queue_unshared_def)
  have "records_of (observers (snd (takeRecords this s)) obs) \<noteq> ?a" for obs
  proof (cases "obs = this")
    case True
    with alloc show ?thesis
      by (simp add: takeRecords_def Let_def)
  next
    case False
    with other [OF False] show ?thesis
      by (simp add: takeRecords_def Let_def)
  qed
  moreover have "?a < fresh (snd (takeRecords this s))"
    using alloc by (simp add: takeRecords_def Let_def)
  moreover have "fst (takeRecords this s) = ?a"
    by (simp add: takeRecords_def Let_def)
  ultimately show ?thesis
    by (simp add: detached_def)
qed

lemma takeRecords_contents:
  assumes "queues_allocated s"
  shows "arrays (snd (takeRecords this s)) (fst (takeRecords this s))
           = arrays s (records_of (observers s this))"
proof -
  have "records_of (observers s this) < fresh s"
    using assms by (simp add: queues_allocated_def)
  then show ?thesis
    by (auto simp: takeRecords_def Let_def)
qed

lemma coalesce_tail:
  "coalesce q r = q \<or> coalesce q r = butlast q @ [r] \<or> coalesce q r = q @ [r]"
  by (simp add: coalesce_def)

lemma take_scenario:
  "arrays (handleEvent (attributes_event ''id'' MODIFICATION) (observing_A watch_attributes)) 2
     = [attributes_record 4 (attributes_event ''id'' MODIFICATION)]
   \<and> fresh (handleEvent (attributes_event ''id'' MODIFICATION) (observing_A watch_attributes)) = 6
   \<and> (\<forall>obs. records_of (observers (handleEvent (attributes_event ''id'' MODIFICATION)
                                        (observing_A watch_attributes)) obs)
              = (if obs = 1 then 2 else 0))"
  by (simp add: scenario_defs watch_attributes_def attributes_event_def
        attributes_callback_def attributes_record_def)

section \<open>What holds in every state that the operations reach\<close>

lemma disconnect_node_lists:
  "registrationsTable s m \<noteq> None \<Longrightarrow>
     registrationsTable (snd (disconnect_node this n s)) m \<noteq> None"
  by (auto simp: disconnect_node_def Let_def split: option.splits)

lemma disconnect_nodes_lists:
  "registrationsTable s m \<noteq> None \<Longrightarrow>
     registrationsTable (snd (disconnect_nodes this ns s)) m \<noteq> None"
proof (induction ns arbitrary: s)
  case Nil
  then show ?case by simp
next
  case (Cons n ns)
  obtain e s1 where d: "disconnect_node this n s = (e, s1)"
    by (cases "disconnect_node this n s")
  have "registrationsTable s1 m \<noteq> None"
    using disconnect_node_lists [OF Cons.prems, of this n] by (simp add: d)
  with d Cons.IH [of s1] show ?case
    by (cases e) simp_all
qed

lemma disconnect_node_sublist:
  "registrationsTable (snd (disconnect_node this n s)) m = Some regs' \<Longrightarrow>
     \<exists>regs. registrationsTable s m = Some regs \<and> set regs' \<subseteq> set regs"
  by (auto simp: disconnect_node_def Let_def split: option.splits if_splits
        dest: in_set_takeD in_set_dropD)

lemma disconnect_node_accepted:
  "registered_options_accepted s \<Longrightarrow>
     registered_options_accepted (snd (disconnect_node this n s))"
  unfolding registered_options_accepted_def
  by (blast dest: disconnect_node_sublist)

lemma disconnect_nodes_accepted:
  "registered_options_accepted s \<Longrightarrow>
     registered_options_accepted (snd (disconnect_nodes this ns s))"
proof (induction ns arbitrary: s)
  case Nil
  then show ?case by simp
next
  case (Cons n ns)
  obtain e s1 where d: "disconnect_node this n s = (e, s1)"
    by (cases "disconnect_node this n s")
  have "registered_options_accepted s1"
    using disconnect_node_accepted [OF Cons.prems, of this n] by (simp add: d)
  with d Cons.IH [of s1] show ?case
    by (cases e) simp_all
qed

lemma disconnect_nodes_of:
  "nodes_of (observers (snd (disconnect this s)) obs) = nodes_of (observers s obs)"
proof -
  let ?ns = "nodes_of (observers s this)"
  obtain e s1 where d: "disconnect_nodes this ?ns s = (e, s1)"
    by (cases "disconnect_nodes this ?ns s")
  have "observers s1 = observers s"
    using disconnect_nodes_frame(1) [of this ?ns s] by (simp add: d)
  with d show ?thesis
    by (cases e) (simp_all add: disconnect_def)
qed

lemma observe_lists:
  assumes "\<forall>this. nodes_have_lists this s"
  shows "nodes_have_lists obs (snd (observe this tgt opts s))"
proof -
  have "registrationsTable s n \<noteq> None" if "n \<in> set (nodes_of (observers s obs))" for n
    using assms that by (auto simp: nodes_have_lists_def)
  then show ?thesis
    by (auto simp: nodes_have_lists_def observe_def Let_def split: option.splits)
qed

lemma observe_accepted:
  assumes "registered_options_accepted s"
  shows "registered_options_accepted (snd (observe this tgt opts s))"
proof (cases "options_rejected opts")
  case True
  with assms show ?thesis by (simp add: observe_def)
next
  case False
  let ?regs = "case registrationsTable s tgt of None \<Rightarrow> [] | Some rs \<Rightarrow> rs"
  have old: "\<forall>reg \<in> set ?regs. \<not> options_rejected (options reg)"
    using assms
    by (cases "registrationsTable s tgt") (auto simp: registered_options_accepted_def)
  show ?thesis
  proof (cases "registration_index this ?regs")
    case None
    from old False
    have "\<forall>reg \<in> set (?regs @ [Registration (fresh s) this tgt opts]).
            \<not> options_rejected (options reg)"
      by (simp add: Registration_def)
    with assms show ?thesis
      unfolding registered_options_accepted_def observe_new [OF None False]
      by (simp del: set_append)
  next
    case (Some i)
    then obtain regs where regs: "registrationsTable s tgt = Some regs"
      by (cases "registrationsTable s tgt") auto
    with Some have i: "registration_index this regs = Some i"
      by simp
    from old regs False
    have "\<forall>reg \<in> set (regs[i := (regs ! i)\<lparr>options := opts\<rparr>]).
            \<not> options_rejected (options reg)"
      by (auto dest!: subsetD [OF set_update_subset_insert])
    with assms show ?thesis
      unfolding registered_options_accepted_def observe_existing(1) [OF regs i False]
      by simp
  qed
qed

lemma enqueue_observers [simp]: "observers (enqueue reg r s) = observers s"
  by (simp add: enqueue_coalesce)

lemma enqueue_all_observers [simp]: "observers (enqueue_all ds s) = observers s"
  by (induction ds arbitrary: s) auto

lemma handleEvent_observers: "observers (handleEvent e s) = observers s"
  by (simp add: handleEvent_def walk_deliveries Let_def)

lemma consistent_init: "consistent init_state"
  by (simp add: consistent_def one_registration_per_observer_def nodes_have_lists_def
        registered_options_accepted_def init_state_def)

lemma consistent_perform:
  assumes "consistent s"
  shows "consistent (perform op s)"
proof -
  from assms have one: "one_registration_per_observer s"
    and lists: "\<forall>this. nodes_have_lists this s"
    and acc: "registered_options_accepted s"
    by (simp_all add: consistent_def)
  have same: "consistent s'"
    if "registrationsTable s' = registrationsTable s"
      "\<And>obs. nodes_of (observers s' obs) = nodes_of (observers s obs)" for s'
    using assms that
    by (simp add: consistent_def one_registration_per_observer_def nodes_have_lists_def
          registered_options_accepted_def)
  show ?thesis
  proof (cases op)
    case (New cb)
    have "nodes_have_lists obs (snd (JsMutationObserver cb s))" for obs
      using lists by (auto simp: nodes_have_lists_def JsMutationObserver_def Let_def)
    with one acc New show ?thesis
      by (simp add: consistent_def one_registration_per_observer_def
            registered_options_accepted_def JsMutationObserver_def Let_def)
  next
    case (Observe this tgt opts)
    with one lists acc show ?thesis
      by (simp add: consistent_def observe_invariant observe_lists observe_accepted)
  next
    case (Disconnect this)
    let ?ns = "nodes_of (observers s this)"
    have "one_registration_per_observer (snd (disconnect this s))"
      using disconnect_nodes_invariant [OF one, of this ?ns]
      by (simp add: one_registration_per_observer_def disconnect_table)
    moreover have "registered_options_accepted (snd (disconnect this s))"
      using disconnect_nodes_accepted [OF acc, of this ?ns]
      by (simp add: registered_options_accepted_def disconnect_table)
    moreover have "nodes_have_lists obs (snd (disconnect this s))" for obs
      using lists disconnect_nodes_lists [of s _ this ?ns]
      by (auto simp: nodes_have_lists_def disconnect_table disconnect_nodes_of)
    ultimately show ?thesis
      using Disconnect by (simp add: consistent_def)
  next
    case (TakeRecords this)
    then show ?thesis
      by (auto intro!: same simp: takeRecords_def Let_def)
  next
    case (HandleEvent e)
    then show ?thesis
      by (auto intro!: same simp: handleEvent_table handleEvent_observers)
  next
    case (Enqueue reg r)
    then show ?thesis
      by (auto intro!: same simp: enqueue_coalesce)
  qed
qed

lemma consistent_run: "consistent s \<Longrightarrow> consistent (run ops s)"
proof (induction ops arbitrary: s)
  case Nil
  then show ?case by (simp add: run_def)
next
  case (Cons op ops)
  from consistent_perform [OF Cons.prems, of op] Cons.IH [of "perform op s"]
  show ?case by (simp add: run_def)
qed

lemma consistent_reached: "consistent (run ops init_state)"
  using consistent_init by (rule consistent_run)


section \<open>Registrations and reached states\<close>

text \<open>
  C6. No node holds two registrations of one observer: this is so after loading,
  every operation keeps it so, and so it is in every state that the operations reach.
  When the observer already has a registration in the
  target's list, \<open>observe\<close> puts the new options into that registration, at its
  place in the list, and adds none: the list keeps its length and the node list of
  every observer stays as it was.
\<close>

theorem one_registration_per_observer_kept:
  "one_registration_per_observer init_state
   \<and> one_registration_per_observer (run ops init_state)
   \<and> (one_registration_per_observer s \<longrightarrow>
        one_registration_per_observer (snd (JsMutationObserver cb s))
      \<and> one_registration_per_observer (snd (observe this tgt opts s))
      \<and> one_registration_per_observer (snd (disconnect this s))
      \<and> one_registration_per_observer (snd (takeRecords this s))
      \<and> one_registration_per_observer (handleEvent e s))
   \<and> (registrationsTable s tgt = Some regs \<and> this \<in> observer ` set regs \<longrightarrow>
        (\<exists>i regs'. registration_index this regs = Some i \<and> observer (regs ! i) = this
            \<and> registrationsTable (snd (observe this tgt opts s)) tgt = Some regs'
            \<and> length regs' = length regs
            \<and> regs' = (if options_rejected opts then regs
                        else regs[i := (regs ! i)\<lparr>options := opts\<rparr>]))
        \<and> observers (snd (observe this tgt opts s)) = observers s)"
proof -
  have init: "one_registration_per_observer init_state"
    by (simp add: one_registration_per_observer_def init_state_def)
  have kept: "one_registration_per_observer (snd (JsMutationObserver cb s))
      \<and> one_registration_per_observer (snd (observe this tgt opts s))
      \<and> one_registration_per_observer (snd (disconnect this s))
      \<and> one_registration_per_observer (snd (takeRecords this s))
      \<and> one_registration_per_observer (handleEvent e s)"
    if inv: "one_registration_per_observer s"
  proof -
    have "one_registration_per_observer (snd (JsMutationObserver cb s))"
      using inv by (simp add: one_registration_per_observer_def JsMutationObserver_def Let_def)
    moreover have "one_registration_per_observer (snd (observe this tgt opts s))"
      using inv by (rule observe_invariant)
    moreover have "one_registration_per_observer (snd (disconnect this s))"
      using disconnect_nodes_invariant [OF inv, of this "nodes_of (observers s this)"]
      by (simp add: one_registration_per_observer_def disconnect_table)
    moreover have "one_registration_per_observer (snd (takeRecords this s))"
      using inv by (simp add: one_registration_per_observer_def takeRecords_def Let_def)
    moreover have "one_registration_per_observer (handleEvent e s)"
      using inv by (simp add: one_registration_per_observer_def handleEvent_table)
    ultimately show ?thesis by simp
  qed
  have repeat: "(\<exists>i regs'. registration_index this regs = Some i \<and> observer (regs ! i) = this
            \<and> registrationsTable (snd (observe this tgt opts s)) tgt = Some regs'
            \<and> length regs' = length regs
            \<and> regs' = (if options_rejected opts then regs
                        else regs[i := (regs ! i)\<lparr>options := opts\<rparr>]))
        \<and> observers (snd (observe this tgt opts s)) = observers s"
    if regs: "registrationsTable s tgt = Some regs" and mem: "this \<in> observer ` set regs"
  proof -
    from mem obtain i where i: "registration_index this regs = Some i"
      using registration_index_None [of this regs] by auto
    then have o: "observer (regs ! i) = this"
      by (simp add: registration_index_Some)
    show ?thesis
    proof (cases "options_rejected opts")
      case True
      with regs i o show ?thesis by (simp add: observe_def)
    next
      case False
      with regs i o observe_existing [OF regs i False] show ?thesis by simp
    qed
  qed
  have reached: "one_registration_per_observer (run ops init_state)"
    using consistent_reached [of ops] by (simp add: consistent_def)
  from init reached kept repeat show ?thesis by blast
qed

theorem one_registration_per_observer_kept_witness:
  "one_registration_per_observer (observing_A watch_attributes)
   \<and> one_registration_per_observer (snd (observe 1 node_A watch_id (observing_A watch_attributes)))
   \<and> registrationsTable (observing_A watch_attributes) node_A
       = Some [Registration 3 1 node_A watch_attributes]
   \<and> registrationsTable (snd (observe 1 node_A watch_id (observing_A watch_attributes))) node_A
       = Some [Registration 3 1 node_A watch_id]
   \<and> nodes_of (observers (snd (observe 1 node_A watch_id (observing_A watch_attributes))) 1)
       = [node_A]"
proof -
  have a: "one_registration_per_observer (snd (JsMutationObserver 0 init_state))"
    using one_registration_per_observer_kept [of "[]" init_state 0 1 node_A watch_attributes]
    by simp
  have b: "one_registration_per_observer (observing_A watch_attributes)"
    using a one_registration_per_observer_kept
            [of "[]" "snd (JsMutationObserver 0 init_state)" 0 1 node_A watch_attributes]
    by (simp add: observing_A_def)
  have c: "one_registration_per_observer
             (snd (observe 1 node_A watch_id (observing_A watch_attributes)))"
    using b one_registration_per_observer_kept
            [of "[]" "observing_A watch_attributes" 0 1 node_A watch_id]
    by simp
  from b c repeat_scenario show ?thesis by simp
qed


text \<open>
  C5. For options that \<open>observe\<close> accepts and whose \<open>attributeFilter\<close> is not empty,
  the builder of the attribute case returns a record if and only if the attribute's
  local name or its namespace URI is in the filter. The options of every registration
  in a state that the operations reach from the initial state are such options, so
  this holds for every registration with a non-empty filter. With the filter
  \<open>["id"]\<close> registered on \<open>node_A\<close>, a change of \<open>class\<close> leaves the queue empty
  and a change of \<open>id\<close> puts one record there.
\<close>

theorem attributeFilter_name_or_namespace:
  "(\<not> options_rejected opts \<and> attributeFilter opts = Some f \<and> f \<noteq> [] \<longrightarrow>
      (attributes_callback name namespace r rw opts \<noteq> None \<longleftrightarrow> in_filter f name namespace))
   \<and> (registrationsTable (run ops init_state) n = Some regs \<and> reg \<in> set regs \<and>
      attributeFilter (options reg) = Some f \<and> f \<noteq> [] \<longrightarrow>
      (attributes_callback name namespace r rw (options reg) \<noteq> None
         \<longleftrightarrow> in_filter f name namespace))
   \<and> arrays (handleEvent (attributes_event ''class'' MODIFICATION) (observing_A watch_id)) 2 = []
   \<and> arrays (handleEvent (attributes_event ''id'' MODIFICATION) (observing_A watch_id)) 2
        = [attributes_record 4 (attributes_event ''id'' MODIFICATION)]"
proof -
  have accepted: "attributes_callback name namespace r rw opts \<noteq> None
                    \<longleftrightarrow> in_filter f name namespace"
    if "\<not> options_rejected opts" "attributeFilter opts = Some f" "f \<noteq> []" for opts
    using that
    by (auto simp: attributes_callback_reportable reportable_attributes_def filter_passes_def
          options_rejected_def)
  have "\<not> options_rejected (options reg)"
    if "registrationsTable (run ops init_state) n = Some regs" "reg \<in> set regs"
    using consistent_reached [of ops] that
    by (auto simp: consistent_def registered_options_accepted_def)
  with accepted [of "options reg"] accepted [of opts] show ?thesis
    using filter_class_scenario filter_id_scenario by blast
qed

theorem attributeFilter_name_or_namespace_witness:
  "\<not> options_rejected watch_id \<and> attributeFilter watch_id = Some [''id'']
   \<and> attributes_callback ''class'' (Some ''id'') (plain_record 7) (extended_record 8 7) watch_id
        = Some (plain_record 7)
   \<and> attributes_callback ''id'' None (plain_record 7) (extended_record 8 7) watch_id
        = Some (plain_record 7)
   \<and> attributes_callback ''class'' (Some ''ns'') (plain_record 7) (extended_record 8 7) watch_id
        = None"
  using attributeFilter_name_or_namespace [of watch_id "[''id'']" "''class''" "Some ''id''"
          "plain_record 7" "extended_record 8 7" "[]" node_A "[]" some_registration]
  by (simp add: watch_id_def watch_attributes_def options_rejected_def in_filter_def
        attributes_callback_def indexOf_absent_def)

section \<open>The arrays in every state that the operations reach\<close>

lemma arrays_in_order_init: "arrays_in_order init_state"
  by (simp add: arrays_in_order_def queues_allocated_def init_state_def)

lemma arrays_in_order_same:
  assumes "arrays_in_order s" "observers s' = observers s" "fresh s \<le> fresh s'"
  shows "arrays_in_order s'"
proof -
  from assms(1) have alloc: "records_of (observers s obs) < fresh s" for obs
    by (simp add: arrays_in_order_def queues_allocated_def)
  have "records_of (observers s obs) < fresh s'" for obs
    using alloc [of obs] assms(3) by simp
  with assms(1,2,3) show ?thesis
    by (simp add: arrays_in_order_def queues_allocated_def queue_unshared_def)
qed

lemma arrays_in_order_new_queue:
  assumes "arrays_in_order s"
    and obs: "observers s' = (observers s)(this := ob)" "records_of ob = a"
    and a: "fresh s \<le> a" "a < fresh s'"
  shows "arrays_in_order s'"
proof -
  have alloc: "records_of (observers s obs) < fresh s" for obs
    using assms(1) by (simp add: arrays_in_order_def queues_allocated_def)
  have other: "records_of (observers s obs) \<noteq> a" for obs
    using alloc [of obs] a(1) by simp
  have unshared: "records_of (observers s o1) = 0 \<or> o1 = o2 \<or>
                    records_of (observers s o2) \<noteq> records_of (observers s o1)" for o1 o2
  proof -
    have "records_of (observers s o1) = 0 \<or> queue_unshared o1 s"
      using assms(1) by (simp add: arrays_in_order_def)
    then show ?thesis
      by (auto simp: queue_unshared_def)
  qed
  have "0 < fresh s'"
    using a(2) by simp
  moreover have "queues_allocated s'"
    unfolding queues_allocated_def
  proof
    fix obs
    show "records_of (observers s' obs) < fresh s'"
      using alloc [of obs] a by (cases "obs = this") (simp_all add: obs)
  qed
  moreover have "records_of (observers s' o1) = 0 \<or> queue_unshared o1 s'" for o1
  proof (cases "o1 = this")
    case True
    then show ?thesis
      using other by (auto simp: queue_unshared_def obs)
  next
    case False
    have "records_of (observers s' o2) \<noteq> records_of (observers s' o1)"
      if "records_of (observers s' o1) \<noteq> 0" "o2 \<noteq> o1" for o2
      using that False unshared [of o1 o2] other [of o1]
      by (cases "o2 = this") (auto simp: obs)
    then show ?thesis
      unfolding queue_unshared_def by blast
  qed
  ultimately show ?thesis
    by (simp add: arrays_in_order_def)
qed

lemma enqueue_fresh [simp]: "fresh (enqueue reg r s) = fresh s"
  by (simp add: enqueue_coalesce)

lemma enqueue_all_fresh: "fresh (enqueue_all ds s) = fresh s"
  by (induction ds arbitrary: s) auto

lemma arrays_in_order_perform:
  assumes "arrays_in_order s"
  shows "arrays_in_order (perform op s)"
proof (cases op)
  case (New cb)
  have "arrays_in_order (snd (JsMutationObserver cb s))"
    using assms
    by (rule arrays_in_order_new_queue
          [where this = "fresh s" and a = "Suc (fresh s)"
             and ob = "\<lparr>callback_of = cb, nodes_of = [], records_of = Suc (fresh s)\<rparr>"])
       (simp_all add: JsMutationObserver_def Let_def)
  with New show ?thesis by simp
next
  case (Observe this tgt opts)
  have "arrays_in_order s'"
    if "\<And>obs. records_of (observers s' obs) = records_of (observers s obs)"
       "fresh s \<le> fresh s'" for s'
  proof -
    from assms have alloc: "records_of (observers s obs) < fresh s" for obs
      by (simp add: arrays_in_order_def queues_allocated_def)
    have "records_of (observers s obs) < fresh s'" for obs
      using alloc [of obs] that(2) by simp
    with assms that show ?thesis
      by (simp add: arrays_in_order_def queues_allocated_def queue_unshared_def)
  qed
  with Observe show ?thesis
    by (simp add: observe_queues)
next
  case (Disconnect this)
  let ?ns = "nodes_of (observers s this)"
  obtain e s1 where d: "disconnect_nodes this ?ns s = (e, s1)"
    by (cases "disconnect_nodes this ?ns s")
  have s1: "observers s1 = observers s" "fresh s1 = fresh s"
    using disconnect_nodes_frame(1,3) [of this ?ns s] by (simp_all add: d)
  have "arrays_in_order (snd (disconnect this s))"
  proof (cases e)
    case None
    show ?thesis
      using assms
      by (rule arrays_in_order_new_queue
            [where this = this and a = "fresh s"
               and ob = "(observers s this)\<lparr>records_of := fresh s\<rparr>"])
         (simp_all add: disconnect_def d None s1)
  next
    case (Some err)
    with d s1 assms show ?thesis
      by (auto simp: disconnect_def intro: arrays_in_order_same)
  qed
  with Disconnect show ?thesis by simp
next
  case (TakeRecords this)
  have "arrays_in_order (snd (takeRecords this s))"
    using assms
    by (rule arrays_in_order_new_queue
          [where this = this and a = "fresh s"
             and ob = "(observers s this)\<lparr>records_of := fresh s\<rparr>"])
       (simp_all add: takeRecords_def Let_def)
  with TakeRecords show ?thesis by simp
next
  case (HandleEvent e)
  have "fresh s \<le> fresh (handleEvent e s)"
    by (simp add: handleEvent_def walk_deliveries Let_def enqueue_all_fresh)
  with assms HandleEvent show ?thesis
    by (auto intro: arrays_in_order_same simp: handleEvent_observers)
next
  case (Enqueue reg r)
  with assms show ?thesis
    by (auto intro: arrays_in_order_same simp: enqueue_coalesce)
qed

lemma arrays_in_order_run: "arrays_in_order s \<Longrightarrow> arrays_in_order (run ops s)"
proof (induction ops arbitrary: s)
  case Nil
  then show ?case by (simp add: run_def)
next
  case (Cons op ops)
  from arrays_in_order_perform [OF Cons.prems, of op] Cons.IH [of "perform op s"]
  show ?case by (simp add: run_def)
qed

lemma arrays_in_order_reached: "arrays_in_order (run ops init_state)"
  using arrays_in_order_init by (rule arrays_in_order_run)

section \<open>What holds in every state that a program reaches\<close>

lemma program_state_init: "program_state [] init_state"
  using arrays_in_order_init consistent_init
  by (simp add: program_state_def observers_created_def registered_listed_def init_state_def)

lemma observe_fresh: "fresh s \<le> fresh (snd (observe this tgt opts s))"
  by (rule observe_queues(3))

lemma disconnect_fresh: "fresh s \<le> fresh (snd (disconnect this s))"
proof -
  let ?ns = "nodes_of (observers s this)"
  obtain e s1 where d: "disconnect_nodes this ?ns s = (e, s1)"
    by (cases "disconnect_nodes this ?ns s")
  have "fresh s1 = fresh s"
    using disconnect_nodes_frame(3) [of this ?ns s] by (simp add: d)
  with d show ?thesis
    by (cases e) (simp_all add: disconnect_def)
qed

lemma disconnect_records_of:
  "records_of (observers (snd (disconnect this s)) obs) = records_of (observers s obs)
   \<or> records_of (observers (snd (disconnect this s)) obs) = fresh s"
proof -
  let ?ns = "nodes_of (observers s this)"
  obtain e s1 where d: "disconnect_nodes this ?ns s = (e, s1)"
    by (cases "disconnect_nodes this ?ns s")
  have "observers s1 = observers s" "fresh s1 = fresh s"
    using disconnect_nodes_frame(1,3) [of this ?ns s] by (simp_all add: d)
  with d show ?thesis
    by (cases e) (simp_all add: disconnect_def)
qed

lemma disconnect_sublist:
  "registrationsTable (snd (disconnect_nodes this ns s)) m = Some regs' \<Longrightarrow>
     \<exists>regs. registrationsTable s m = Some regs \<and> set regs' \<subseteq> set regs"
proof (induction ns arbitrary: s)
  case Nil
  then show ?case by simp
next
  case (Cons n ns)
  obtain e s1 where d: "disconnect_node this n s = (e, s1)"
    by (cases "disconnect_node this n s")
  have step: "\<exists>regs. registrationsTable s m = Some regs \<and> set regs1 \<subseteq> set regs"
    if "registrationsTable s1 m = Some regs1" for regs1
    using disconnect_node_sublist [of this n s m regs1] that by (simp add: d)
  show ?case
  proof (cases e)
    case None
    with d Cons.prems have "registrationsTable (snd (disconnect_nodes this ns s1)) m = Some regs'"
      by simp
    from Cons.IH [OF this] obtain regs1
      where "registrationsTable s1 m = Some regs1" "set regs' \<subseteq> set regs1"
      by blast
    with step [of regs1] show ?thesis by blast
  next
    case (Some err)
    with d Cons.prems have "registrationsTable s1 m = Some regs'"
      by simp
    with step [of regs'] show ?thesis by blast
  qed
qed

lemma observers_created_perform:
  assumes "arrays_in_order s" "observers_created cs s"
  shows "observers_created (created_by op s @ cs) (perform op s)"
proof -
  from assms(1) have pos: "0 < fresh s"
    by (simp add: arrays_in_order_def)
  have old: "c < fresh s \<and> records_of (observers s c) \<noteq> 0" if "c \<in> set cs" for c
    using assms(2) that by (simp add: observers_created_def)
  show ?thesis
  proof (cases op)
    case (New cb)
    have "c < fresh (snd (JsMutationObserver cb s)) \<and>
          records_of (observers (snd (JsMutationObserver cb s)) c) \<noteq> 0"
      if "c \<in> set (fst (JsMutationObserver cb s) # cs)" for c
      using that old [of c] by (auto simp: JsMutationObserver_def Let_def)
    with New show ?thesis
      by (simp add: observers_created_def)
  next
    case (Observe this tgt opts)
    have "c < fresh (snd (observe this tgt opts s)) \<and>
          records_of (observers (snd (observe this tgt opts s)) c) \<noteq> 0"
      if "c \<in> set cs" for c
      using old [OF that] observe_fresh [of s this tgt opts]
      by (simp add: observe_queues(1))
    with Observe show ?thesis
      by (simp add: observers_created_def)
  next
    case (Disconnect this)
    have "c < fresh (snd (disconnect this s)) \<and>
          records_of (observers (snd (disconnect this s)) c) \<noteq> 0"
      if "c \<in> set cs" for c
      using old [OF that] disconnect_fresh [of s this] disconnect_records_of [of this s c] pos
      by auto
    with Disconnect show ?thesis
      by (simp add: observers_created_def)
  next
    case (TakeRecords this)
    have "c < fresh (snd (takeRecords this s)) \<and>
          records_of (observers (snd (takeRecords this s)) c) \<noteq> 0"
      if "c \<in> set cs" for c
      using old [OF that] pos by (auto simp: takeRecords_def Let_def)
    with TakeRecords show ?thesis
      by (simp add: observers_created_def)
  next
    case (HandleEvent e)
    have "fresh s \<le> fresh (handleEvent e s)"
      by (simp add: handleEvent_def walk_deliveries Let_def enqueue_all_fresh)
    then have "c < fresh (handleEvent e s) \<and> records_of (observers (handleEvent e s) c) \<noteq> 0"
      if "c \<in> set cs" for c
      using old [OF that] by (simp add: handleEvent_observers)
    with HandleEvent show ?thesis
      by (simp add: observers_created_def)
  next
    case (Enqueue reg r)
    with old show ?thesis
      by (simp add: observers_created_def)
  qed
qed

lemma registered_listed_same:
  assumes "registered_listed cs s" "registrationsTable s' = registrationsTable s"
    "\<And>obs. nodes_of (observers s' obs) = nodes_of (observers s obs)"
  shows "registered_listed cs s'"
  using assms by (simp add: registered_listed_def)

lemma registered_listed_observe:
  assumes "registered_listed cs s" "this \<in> set cs"
  shows "registered_listed cs (snd (observe this tgt opts s))"
proof (cases "options_rejected opts")
  case True
  with assms show ?thesis by (simp add: observe_def)
next
  case False
  let ?regs = "case registrationsTable s tgt of None \<Rightarrow> [] | Some rs \<Rightarrow> rs"
  let ?s' = "snd (observe this tgt opts s)"
  have old: "observer reg \<in> set cs \<and> n \<in> set (nodes_of (observers s (observer reg)))"
    if "registrationsTable s n = Some regs" "reg \<in> set regs" for n regs reg
    using assms(1) that by (auto simp: registered_listed_def)
  have old_tgt: "observer reg \<in> set cs \<and> tgt \<in> set (nodes_of (observers s (observer reg)))"
    if "reg \<in> set ?regs" for reg
    using that old [of tgt _ reg] by (cases "registrationsTable s tgt") auto
  show ?thesis
  proof (cases "registration_index this ?regs")
    case None
    have tab: "registrationsTable ?s' = (registrationsTable s)(tgt \<mapsto>
                 ?regs @ [Registration (fresh s) this tgt opts])"
      using None False by (rule observe_new)
    have nodes: "set (nodes_of (observers s obs)) \<subseteq> set (nodes_of (observers ?s' obs))"
      "tgt \<in> set (nodes_of (observers ?s' this))" for obs
      using None False by (auto simp: observe_def Let_def)
    have "observer reg \<in> set cs \<and> n \<in> set (nodes_of (observers ?s' (observer reg)))"
      if "registrationsTable ?s' n = Some regs" "reg \<in> set regs" for n regs reg
    proof (cases "n = tgt")
      case True
      with that tab have "reg \<in> set ?regs \<or> reg = Registration (fresh s) this tgt opts"
        by auto
      then show ?thesis
        using old_tgt [of reg] nodes assms(2) True by (auto simp: Registration_def)
    next
      case False
      with that tab have "registrationsTable s n = Some regs"
        by simp
      from old [OF this that(2)] nodes show ?thesis by auto
    qed
    then show ?thesis
      unfolding registered_listed_def by blast
  next
    case (Some i)
    then obtain regs0 where regs0: "registrationsTable s tgt = Some regs0"
      by (cases "registrationsTable s tgt") auto
    with Some have i: "registration_index this regs0 = Some i"
      by simp
    then have il: "i < length regs0"
      by (simp add: registration_index_Some)
    have tab: "registrationsTable ?s' = (registrationsTable s)(tgt \<mapsto>
                 regs0[i := (regs0 ! i)\<lparr>options := opts\<rparr>])"
      and obs: "observers ?s' = observers s"
      using observe_existing [OF regs0 i False] by simp_all
    have "observer reg \<in> set cs \<and> n \<in> set (nodes_of (observers ?s' (observer reg)))"
      if "registrationsTable ?s' n = Some regs" "reg \<in> set regs" for n regs reg
    proof (cases "n = tgt")
      case True
      with that tab have "reg \<in> set (regs0[i := (regs0 ! i)\<lparr>options := opts\<rparr>])"
        by auto
      then have "reg \<in> set regs0 \<or> reg = (regs0 ! i)\<lparr>options := opts\<rparr>"
        using set_update_subset_insert [of regs0 i] by auto
      then show ?thesis
        using old [OF regs0, of reg] old [OF regs0, of "regs0 ! i"] il True
        by (auto simp: obs)
    next
      case False
      with that tab have "registrationsTable s n = Some regs"
        by simp
      from old [OF this that(2)] show ?thesis by (simp add: obs)
    qed
    then show ?thesis
      unfolding registered_listed_def by blast
  qed
qed

lemma registered_listed_disconnect:
  assumes "registered_listed cs s"
  shows "registered_listed cs (snd (disconnect this s))"
proof -
  have "observer reg \<in> set cs \<and>
        n \<in> set (nodes_of (observers (snd (disconnect this s)) (observer reg)))"
    if "registrationsTable (snd (disconnect this s)) n = Some regs'" "reg \<in> set regs'"
    for n regs' reg
  proof -
    from that(1) obtain regs where "registrationsTable s n = Some regs" "set regs' \<subseteq> set regs"
      using disconnect_sublist [of this "nodes_of (observers s this)" s n regs']
      by (auto simp: disconnect_table)
    with that(2) assms show ?thesis
      by (auto simp: registered_listed_def disconnect_nodes_of)
  qed
  then show ?thesis
    unfolding registered_listed_def by blast
qed

lemma registered_listed_perform:
  assumes "registered_listed cs s" "observers_created cs s" "receiver_created cs op"
  shows "registered_listed (created_by op s @ cs) (perform op s)"
proof (cases op)
  case (New cb)
  have "observer reg \<in> set (fresh s # cs) \<and>
        n \<in> set (nodes_of (observers (snd (JsMutationObserver cb s)) (observer reg)))"
    if "registrationsTable s n = Some regs" "reg \<in> set regs" for n regs reg
  proof -
    from assms(1) that
    have r: "observer reg \<in> set cs" "n \<in> set (nodes_of (observers s (observer reg)))"
      by (auto simp: registered_listed_def)
    with assms(2) have "observer reg \<noteq> fresh s"
      by (auto simp: observers_created_def)
    with r show ?thesis
      by (simp add: JsMutationObserver_def Let_def)
  qed
  with New show ?thesis
    by (simp add: registered_listed_def JsMutationObserver_def Let_def)
next
  case (Observe this tgt opts)
  with assms show ?thesis
    by (simp add: registered_listed_observe)
next
  case (Disconnect this)
  with assms show ?thesis
    by (simp add: registered_listed_disconnect)
next
  case (TakeRecords this)
  have "registered_listed cs (snd (takeRecords this s))"
    by (rule registered_listed_same [OF assms(1)]) (simp_all add: takeRecords_def Let_def)
  with TakeRecords show ?thesis by simp
next
  case (HandleEvent e)
  have "registered_listed cs (handleEvent e s)"
    by (rule registered_listed_same [OF assms(1)])
       (simp_all add: handleEvent_table handleEvent_observers)
  with HandleEvent show ?thesis by simp
next
  case (Enqueue reg r)
  have "registered_listed cs (enqueue reg r s)"
    by (rule registered_listed_same [OF assms(1)]) (simp_all add: enqueue_coalesce)
  with Enqueue show ?thesis by simp
qed

lemma program_state_perform:
  assumes "program_state cs s" "receiver_created cs op"
  shows "program_state (created_by op s @ cs) (perform op s)"
  using assms
  by (simp add: program_state_def arrays_in_order_perform consistent_perform
        observers_created_perform registered_listed_perform)

lemma program_state_calls:
  "program_state cs s \<Longrightarrow> calls cs ops s = Some (cs', s') \<Longrightarrow> program_state cs' s'"
proof (induction ops arbitrary: cs s)
  case Nil
  then show ?case by simp
next
  case (Cons op ops)
  from Cons.prems(2) have ok: "receiver_created cs op"
    and rest: "calls (created_by op s @ cs) ops (perform op s) = Some (cs', s')"
    by (simp_all split: if_splits)
  from program_state_perform [OF Cons.prems(1) ok] rest show ?case
    by (rule Cons.IH)
qed

lemma program_state_reached:
  "calls [] ops init_state = Some (cs, s) \<Longrightarrow> program_state cs s"
  using program_state_init by (rule program_state_calls)

section \<open>disconnect in a state that a program reaches\<close>

lemma disconnect_effect:
  assumes inv: "one_registration_per_observer s" and have_lists: "nodes_have_lists this s"
  shows "fst (disconnect this s) = None
   \<and> (\<forall>n. registrationsTable (snd (disconnect this s)) n
          = (if n \<in> set (nodes_of (observers s this))
             then map_option (without_observer this) (registrationsTable s n)
             else registrationsTable s n))
   \<and> arrays (snd (disconnect this s)) (records_of (observers (snd (disconnect this s)) this)) = []
   \<and> nodes_of (observers (snd (disconnect this s)) this) = nodes_of (observers s this)
   \<and> (\<forall>obs. obs \<noteq> this \<longrightarrow> observers (snd (disconnect this s)) obs = observers s obs)"
proof -
  from have_lists
  have lists: "\<forall>n \<in> set (nodes_of (observers s this)). registrationsTable s n \<noteq> None"
    by (simp add: nodes_have_lists_def)
  note t = disconnect_nodes_table [OF inv lists, of this]
  from t have r: "disconnect this s =
     (None,
      (snd (disconnect_nodes this (nodes_of (observers s this)) s))
        \<lparr>observers := (observers s)(this := (observers s this)\<lparr>records_of := fresh s\<rparr>),
         arrays := (arrays s)(fresh s := []),
         fresh := Suc (fresh s)\<rparr>)"
    by (simp add: disconnect_result)
  show ?thesis
    unfolding r using t by simp
qed

lemma without_observer_absent:
  "this \<notin> observer ` set regs \<Longrightarrow> without_observer this regs = regs"
  by (auto simp: without_observer_def filter_id_conv)

lemma two_observers_scenario:
  "registrationsTable (snd (observe 4 node_A watch_id
      (snd (JsMutationObserver 0 (observing_A watch_attributes))))) node_A
     = Some [Registration 3 1 node_A watch_attributes, Registration 6 4 node_A watch_id]"
  by (simp add: scenario_defs watch_id_def watch_attributes_def)

lemma two_observers_program:
  "calls [] [New 0, Observe 1 node_A watch_attributes, New 0, Observe 4 node_A watch_id] init_state
     = Some ([4, 1], snd (observe 4 node_A watch_id
                            (snd (JsMutationObserver 0 (observing_A watch_attributes)))))"
proof -
  have 1: "fst (JsMutationObserver 0 init_state) = 1"
    by (simp add: JsMutationObserver_def init_state_def)
  have 2: "fst (JsMutationObserver 0 (observing_A watch_attributes)) = 4"
    by (simp add: scenario_defs watch_attributes_def)
  show ?thesis
    by (simp add: 1 2 [unfolded observing_A_def] observing_A_def del: One_nat_def)
qed

text \<open>
  C2, as the code has it. In every state that a program reaches, a node in whose list
  the observer has a registration is in the observer's node list, and no list holds
  two registrations of one observer. There \<open>disconnect\<close> throws nothing; every
  list of the table loses the registration of this observer, if it holds one, and
  keeps all others, in their order; the observer's queue is a new, empty array; the
  observer's node list stays as it was and no other observer changes.
\<close>

theorem disconnect_removes_own_registrations:
  "calls [] ops init_state = Some (cs, s) \<longrightarrow>
     (\<forall>n regs. registrationsTable s n = Some regs \<and> this \<in> observer ` set regs \<longrightarrow>
        n \<in> set (nodes_of (observers s this)))
   \<and> (\<forall>n regs. registrationsTable s n = Some regs \<longrightarrow> distinct (map observer regs))
   \<and> fst (disconnect this s) = None
   \<and> (\<forall>n. registrationsTable (snd (disconnect this s)) n
          = map_option (without_observer this) (registrationsTable s n))
   \<and> arrays (snd (disconnect this s)) (records_of (observers (snd (disconnect this s)) this)) = []
   \<and> nodes_of (observers (snd (disconnect this s)) this) = nodes_of (observers s this)
   \<and> (\<forall>obs. obs \<noteq> this \<longrightarrow> observers (snd (disconnect this s)) obs = observers s obs)"
proof
  assume "calls [] ops init_state = Some (cs, s)"
  then have p: "program_state cs s"
    by (rule program_state_reached)
  then have inv: "one_registration_per_observer s" and lists: "nodes_have_lists this s"
    and listed: "registered_listed cs s"
    by (simp_all add: program_state_def consistent_def)
  have reg: "n \<in> set (nodes_of (observers s this))"
    if "registrationsTable s n = Some regs" "this \<in> observer ` set regs" for n regs
    using listed that by (auto simp: registered_listed_def)
  have one: "distinct (map observer regs)" if "registrationsTable s n = Some regs" for n regs
    using inv that by (simp add: one_registration_per_observer_def)
  note e = disconnect_effect [OF inv lists]
  have tab: "registrationsTable (snd (disconnect this s)) n
          = map_option (without_observer this) (registrationsTable s n)" for n
  proof (cases "n \<in> set (nodes_of (observers s this))")
    case True
    with e show ?thesis by simp
  next
    case False
    have "map_option (without_observer this) (registrationsTable s n) = registrationsTable s n"
    proof (cases "registrationsTable s n")
      case None
      then show ?thesis by simp
    next
      case (Some regs)
      with reg [OF Some] False have "this \<notin> observer ` set regs"
        by blast
      with Some show ?thesis
        by (simp add: without_observer_absent)
    qed
    with e False show ?thesis by simp
  qed
  from reg one tab e
  show "(\<forall>n regs. registrationsTable s n = Some regs \<and> this \<in> observer ` set regs \<longrightarrow>
        n \<in> set (nodes_of (observers s this)))
   \<and> (\<forall>n regs. registrationsTable s n = Some regs \<longrightarrow> distinct (map observer regs))
   \<and> fst (disconnect this s) = None
   \<and> (\<forall>n. registrationsTable (snd (disconnect this s)) n
          = map_option (without_observer this) (registrationsTable s n))
   \<and> arrays (snd (disconnect this s)) (records_of (observers (snd (disconnect this s)) this)) = []
   \<and> nodes_of (observers (snd (disconnect this s)) this) = nodes_of (observers s this)
   \<and> (\<forall>obs. obs \<noteq> this \<longrightarrow> observers (snd (disconnect this s)) obs = observers s obs)"
    by blast
qed

theorem disconnect_removes_own_registrations_witness:
  "calls [] [New 0, Observe 1 node_A watch_attributes, New 0, Observe 4 node_A watch_id] init_state
     = Some ([4, 1], snd (observe 4 node_A watch_id
                            (snd (JsMutationObserver 0 (observing_A watch_attributes)))))
   \<and> registrationsTable (snd (observe 4 node_A watch_id
      (snd (JsMutationObserver 0 (observing_A watch_attributes))))) node_A
     = Some [Registration 3 1 node_A watch_attributes, Registration 6 4 node_A watch_id]
   \<and> registrationsTable (snd (disconnect 1 (snd (observe 4 node_A watch_id
      (snd (JsMutationObserver 0 (observing_A watch_attributes))))))) node_A
     = Some [Registration 6 4 node_A watch_id]"
proof -
  let ?s = "snd (observe 4 node_A watch_id (snd (JsMutationObserver 0 (observing_A watch_attributes))))"
  from disconnect_removes_own_registrations
         [of "[New 0, Observe 1 node_A watch_attributes, New 0, Observe 4 node_A watch_id]"
             "[4, 1]" ?s 1]
       two_observers_program
  have "registrationsTable (snd (disconnect 1 ?s)) node_A
          = map_option (without_observer 1) (registrationsTable ?s node_A)"
    by blast
  then have "registrationsTable (snd (disconnect 1 ?s)) node_A
               = Some [Registration 6 4 node_A watch_id]"
    unfolding two_observers_scenario
    by (simp add: without_observer_def Registration_def)
  with two_observers_program two_observers_scenario show ?thesis
    by simp
qed

text \<open>
  C2, as the specification has it, fails: after \<open>observe\<close> on \<open>node_A\<close> and
  \<open>disconnect\<close> the node list of the observer still holds \<open>node_A\<close>.
\<close>

theorem disconnect_keeps_node_list:
  "fst (disconnect 1 (observing_A watch_attributes)) = None
   \<and> nodes_of (observers (snd (disconnect 1 (observing_A watch_attributes))) 1) = [node_A]
   \<and> nodes_of (observers (snd (disconnect 1 (observing_A watch_attributes))) 1) \<noteq> []"
  by (simp add: scenario_defs watch_attributes_def disconnect_def disconnect_node_def
        removeListeners_def removeEventListener_def)

section \<open>takeRecords and the order of the queue\<close>

lemma queue_ref_enqueue [simp]: "queue_ref reg (enqueue reg' r s) = queue_ref reg s"
  by (simp add: queue_ref_def)

lemma enqueue_all_same_registration:
  "enqueue_all (map (Pair reg) rs) s =
     s\<lparr>arrays := (arrays s)(queue_ref reg s := foldl coalesce (arrays s (queue_ref reg s)) rs)\<rparr>"
proof (induction rs arbitrary: s)
  case Nil
  then show ?case by simp
next
  case (Cons r rs)
  have "enqueue_all (map (Pair reg) (r # rs)) s = enqueue_all (map (Pair reg) rs) (enqueue reg r s)"
    by simp
  also have "\<dots> = (enqueue reg r s)
      \<lparr>arrays := (arrays (enqueue reg r s))
         (queue_ref reg s := foldl coalesce (arrays (enqueue reg r s) (queue_ref reg s)) rs)\<rparr>"
    by (simp only: Cons.IH [of "enqueue reg r s"] queue_ref_enqueue)
  also have "\<dots> = s\<lparr>arrays := (arrays s)
         (queue_ref reg s := foldl coalesce (arrays s (queue_ref reg s)) (r # rs))\<rparr>"
    by (simp add: enqueue_coalesce)
  finally show ?case .
qed

lemma coalesce_plain:
  assumes "\<forall>x \<in> set (q @ [r]). proto x = MutationRecordPrototype" "distinct (map ident (q @ [r]))"
  shows "coalesce q r = q @ [r]"
proof (cases q rule: rev_cases)
  case Nil
  then show ?thesis by (simp add: coalesce_def)
next
  case (snoc ys y)
  with assms show ?thesis
    by (auto simp: coalesce_def identical_def base_of_def)
qed

lemma foldl_coalesce_plain:
  "\<forall>x \<in> set (q @ rs). proto x = MutationRecordPrototype \<Longrightarrow> distinct (map ident (q @ rs)) \<Longrightarrow>
     foldl coalesce q rs = q @ rs"
proof (induction rs arbitrary: q)
  case Nil
  then show ?case by simp
next
  case (Cons r rs)
  have "coalesce q r = q @ [r]"
    using Cons.prems by (intro coalesce_plain) auto
  moreover have "foldl coalesce (q @ [r]) rs = (q @ [r]) @ rs"
    using Cons.prems by (intro Cons.IH) auto
  ultimately show ?case by simp
qed

lemma enqueue_at_end:
  "arrays (enqueue reg r s) (queue_ref reg s) = arrays s (queue_ref reg s)
   \<or> arrays (enqueue reg r s) (queue_ref reg s) = butlast (arrays s (queue_ref reg s)) @ [r]
   \<or> arrays (enqueue reg r s) (queue_ref reg s) = arrays s (queue_ref reg s) @ [r]"
  using coalesce_tail [of "arrays s (queue_ref reg s)" r] by (simp add: enqueue_coalesce)

lemma takeRecords_after_enqueues:
  assumes "\<forall>x \<in> set (arrays s (queue_ref reg s) @ rs). proto x = MutationRecordPrototype"
    "distinct (map ident (arrays s (queue_ref reg s) @ rs))" "queues_allocated s"
  shows "arrays (snd (takeRecords (observer reg) (enqueue_all (map (Pair reg) rs) s)))
           (fst (takeRecords (observer reg) (enqueue_all (map (Pair reg) rs) s)))
         = arrays s (queue_ref reg s) @ rs"
proof -
  let ?s' = "enqueue_all (map (Pair reg) rs) s"
  have "queues_allocated ?s'"
    using assms(3) by (simp add: queues_allocated_def enqueue_all_fresh)
  then have "arrays (snd (takeRecords (observer reg) ?s')) (fst (takeRecords (observer reg) ?s'))
          = arrays ?s' (records_of (observers ?s' (observer reg)))"
    by (rule takeRecords_contents)
  also have "\<dots> = arrays ?s' (queue_ref reg s)"
    by (simp add: queue_ref_def)
  also have "\<dots> = foldl coalesce (arrays s (queue_ref reg s)) rs"
    by (simp add: enqueue_all_same_registration)
  also have "\<dots> = arrays s (queue_ref reg s) @ rs"
    using assms(1,2) by (rule foldl_coalesce_plain)
  finally show ?thesis .
qed

lemma created_unshared:
  assumes "calls [] ops init_state = Some (cs, s)" "this \<in> set cs"
  shows "queues_allocated s \<and> queue_unshared this s"
proof -
  from assms(1) have p: "program_state cs s"
    by (rule program_state_reached)
  then have "records_of (observers s this) \<noteq> 0"
    using assms(2) by (simp add: program_state_def observers_created_def)
  moreover from p have "queues_allocated s"
    and "records_of (observers s this) = 0 \<or> queue_unshared this s"
    by (simp_all add: program_state_def arrays_in_order_def)
  ultimately show ?thesis by simp
qed

lemma take_program:
  "calls [] [New 0, Observe 1 node_A watch_attributes,
             HandleEvent (attributes_event ''id'' MODIFICATION)] init_state
     = Some ([1], handleEvent (attributes_event ''id'' MODIFICATION)
                    (observing_A watch_attributes))"
proof -
  have 1: "fst (JsMutationObserver 0 init_state) = 1"
    by (simp add: JsMutationObserver_def init_state_def)
  show ?thesis
    by (simp add: 1 observing_A_def del: One_nat_def)
qed

lemma two_plain_scenario:
  "queue_ref some_registration (observing_A watch_attributes) = 2
   \<and> observer some_registration = 1
   \<and> arrays (observing_A watch_attributes) 2 = []
   \<and> queues_allocated (observing_A watch_attributes)"
  by (simp add: queue_ref_def queues_allocated_def some_registration_def scenario_defs
        watch_attributes_def)

text \<open>
  C7. \<open>takeRecords\<close> returns the array that is the observer's queue, with its
  contents as they are, and the observer's queue is empty afterwards. The contents are
  in the order of the calls of \<open>enqueue\<close>, oldest first: \<open>enqueue\<close> leaves the
  queue as it is, or puts the record in the place of the last one, or puts it behind
  the last one, and plain records of different identity, enqueued one after the other,
  come back from \<open>takeRecords\<close> behind what the queue held, in the order in which they
  were enqueued. A second call right after the first returns an empty array, and so
  does a call on an empty queue. When the queue was the observer's own, no later call
  of \<open>enqueue\<close>, nor any other later operation, changes the array that was
  returned; and in every state that a program reaches the queue of every observer
  that the constructor has returned is its own.
\<close>

theorem takeRecords_returns_queue:
  "fst (takeRecords this s) = records_of (observers s this)
   \<and> (queues_allocated s \<longrightarrow>
        arrays (snd (takeRecords this s)) (fst (takeRecords this s))
          = arrays s (records_of (observers s this)))
   \<and> (arrays (enqueue reg r s) (queue_ref reg s) = arrays s (queue_ref reg s)
        \<or> arrays (enqueue reg r s) (queue_ref reg s) = butlast (arrays s (queue_ref reg s)) @ [r]
        \<or> arrays (enqueue reg r s) (queue_ref reg s) = arrays s (queue_ref reg s) @ [r])
   \<and> ((\<forall>x \<in> set (arrays s (queue_ref reg s) @ rs). proto x = MutationRecordPrototype) \<and>
        distinct (map ident (arrays s (queue_ref reg s) @ rs)) \<and> queues_allocated s \<longrightarrow>
        arrays (snd (takeRecords (observer reg) (enqueue_all (map (Pair reg) rs) s)))
           (fst (takeRecords (observer reg) (enqueue_all (map (Pair reg) rs) s)))
         = arrays s (queue_ref reg s) @ rs)
   \<and> arrays (snd (takeRecords this s)) (records_of (observers (snd (takeRecords this s)) this)) = []
   \<and> arrays (snd (takeRecords this (snd (takeRecords this s))))
        (fst (takeRecords this (snd (takeRecords this s)))) = []
   \<and> (queues_allocated s \<and> queue_unshared this s \<longrightarrow>
        (\<forall>later. arrays (run later (snd (takeRecords this s))) (fst (takeRecords this s))
                 = arrays s (records_of (observers s this))))
   \<and> (calls [] before init_state = Some (cs, s) \<and> this \<in> set cs \<longrightarrow>
        queues_allocated s \<and> queue_unshared this s \<and>
        (\<forall>later. arrays (run later (snd (takeRecords this s))) (fst (takeRecords this s))
                 = arrays s (records_of (observers s this))))"
proof -
  have 1: "fst (takeRecords this s) = records_of (observers s this)"
    by (simp add: takeRecords_def Let_def)
  have 2: "arrays (snd (takeRecords this s)) (records_of (observers (snd (takeRecords this s)) this))
             = []"
    by (simp add: takeRecords_def Let_def)
  have 3: "arrays (snd (takeRecords this (snd (takeRecords this s))))
        (fst (takeRecords this (snd (takeRecords this s)))) = []"
    by (simp add: takeRecords_def Let_def)
  have 4: "arrays (run later (snd (takeRecords this s))) (fst (takeRecords this s))
                 = arrays s (records_of (observers s this))"
    if "queues_allocated s" "queue_unshared this s" for later
    using detached_run [OF takeRecords_detaches [OF that], of later]
      takeRecords_contents [OF that(1), of this]
    by simp
  have 5: "queues_allocated s \<and> queue_unshared this s"
    if "calls [] before init_state = Some (cs, s)" "this \<in> set cs"
    using that by (rule created_unshared)
  have 6: "arrays (snd (takeRecords (observer reg) (enqueue_all (map (Pair reg) rs) s)))
           (fst (takeRecords (observer reg) (enqueue_all (map (Pair reg) rs) s)))
         = arrays s (queue_ref reg s) @ rs"
    if "\<forall>x \<in> set (arrays s (queue_ref reg s) @ rs). proto x = MutationRecordPrototype"
      "distinct (map ident (arrays s (queue_ref reg s) @ rs))" "queues_allocated s"
    using that by (rule takeRecords_after_enqueues)
  from 1 2 3 4 5 6 takeRecords_contents [of s this] enqueue_at_end [of reg r s] show ?thesis
    by blast
qed

theorem takeRecords_returns_queue_witness:
  "calls [] [New 0, Observe 1 node_A watch_attributes,
             HandleEvent (attributes_event ''id'' MODIFICATION)] init_state
     = Some ([1], handleEvent (attributes_event ''id'' MODIFICATION)
                    (observing_A watch_attributes))
   \<and> fst (takeRecords 1 (handleEvent (attributes_event ''id'' MODIFICATION)
                         (observing_A watch_attributes))) = 2
   \<and> arrays (snd (takeRecords 1 (handleEvent (attributes_event ''id'' MODIFICATION)
                                    (observing_A watch_attributes)))) 2
       = [attributes_record 4 (attributes_event ''id'' MODIFICATION)]
   \<and> arrays (run [HandleEvent (attributes_event ''class'' MODIFICATION), TakeRecords 1,
                   Enqueue (Registration 3 1 node_A watch_attributes) (plain_record 20)]
              (snd (takeRecords 1 (handleEvent (attributes_event ''id'' MODIFICATION)
                                     (observing_A watch_attributes))))) 2
       = [attributes_record 4 (attributes_event ''id'' MODIFICATION)]
   \<and> arrays (snd (takeRecords 1
                (enqueue_all [(some_registration, plain_record 7), (some_registration, plain_record 9)]
                   (observing_A watch_attributes))))
        (fst (takeRecords 1
                (enqueue_all [(some_registration, plain_record 7), (some_registration, plain_record 9)]
                   (observing_A watch_attributes))))
       = [plain_record 7, plain_record 9]"
proof -
  let ?s = "handleEvent (attributes_event ''id'' MODIFICATION) (observing_A watch_attributes)"
  let ?later = "[HandleEvent (attributes_event ''class'' MODIFICATION), TakeRecords 1,
                   Enqueue (Registration 3 1 node_A watch_attributes) (plain_record 20)]"
  note t = takeRecords_returns_queue [of 1 ?s some_registration "plain_record 20" "[]"
             "[New 0, Observe 1 node_A watch_attributes,
               HandleEvent (attributes_event ''id'' MODIFICATION)]" "[1]"]
  have q: "records_of (observers ?s 1) = 2"
    "arrays ?s 2 = [attributes_record 4 (attributes_event ''id'' MODIFICATION)]"
    by (simp_all add: take_scenario)
  from t have f: "fst (takeRecords 1 ?s) = records_of (observers ?s 1)"
    by (rule conjunct1)
  have prem: "calls [] [New 0, Observe 1 node_A watch_attributes,
                        HandleEvent (attributes_event ''id'' MODIFICATION)] init_state
                = Some ([1], ?s) \<and> 1 \<in> set [1::nat]"
    by (rule conjI [OF take_program]) simp
  from t prem have a: "queues_allocated ?s"
    by blast
  from t a have c: "arrays (snd (takeRecords 1 ?s)) (fst (takeRecords 1 ?s))
                      = arrays ?s (records_of (observers ?s 1))"
    by blast
  from t prem
  have "\<forall>later. arrays (run later (snd (takeRecords 1 ?s))) (fst (takeRecords 1 ?s))
                      = arrays ?s (records_of (observers ?s 1))"
    by blast
  then have r: "arrays (run ?later (snd (takeRecords 1 ?s))) (fst (takeRecords 1 ?s))
               = arrays ?s (records_of (observers ?s 1))"
    by (rule spec)
  note u = takeRecords_returns_queue [of 1 "observing_A watch_attributes" some_registration
             "plain_record 20" "[plain_record 7, plain_record 9]" "[]" "[]"]
  have pre: "(\<forall>x \<in> set (arrays (observing_A watch_attributes)
                             (queue_ref some_registration (observing_A watch_attributes))
                           @ [plain_record 7, plain_record 9]). proto x = MutationRecordPrototype)"
    "distinct (map ident (arrays (observing_A watch_attributes)
                             (queue_ref some_registration (observing_A watch_attributes))
                           @ [plain_record 7, plain_record 9]))"
    "queues_allocated (observing_A watch_attributes)"
    by (simp_all add: two_plain_scenario plain_record_def)
  from u pre
  have "arrays (snd (takeRecords (observer some_registration)
                  (enqueue_all (map (Pair some_registration) [plain_record 7, plain_record 9])
                     (observing_A watch_attributes))))
           (fst (takeRecords (observer some_registration)
                  (enqueue_all (map (Pair some_registration) [plain_record 7, plain_record 9])
                     (observing_A watch_attributes))))
         = arrays (observing_A watch_attributes)
             (queue_ref some_registration (observing_A watch_attributes))
           @ [plain_record 7, plain_record 9]"
    by blast
  then have fifo: "arrays (snd (takeRecords 1
                (enqueue_all [(some_registration, plain_record 7), (some_registration, plain_record 9)]
                   (observing_A watch_attributes))))
        (fst (takeRecords 1
                (enqueue_all [(some_registration, plain_record 7), (some_registration, plain_record 9)]
                   (observing_A watch_attributes))))
       = [plain_record 7, plain_record 9]"
    by (simp add: two_plain_scenario)
  from f c r fifo take_program show ?thesis
    unfolding q by (simp only: simp_thms)
qed

end
